theory Spec2Isabelle
  imports Main "HOL-Library.Word" "HOL-Library.Multiset"
begin

unbundle bit_operations_syntax

section \<open>Strings and bytes\<close>

text \<open>
  A JavaScript string is modelled by its UTF-8 encoding, a \<^typ>\<open>string\<close> whose
  characters are bytes. All patterns that worker.js searches for are ASCII, and an ASCII
  byte never occurs inside a multi-byte UTF-8 sequence, so searching, splitting and
  prefix tests on the bytes agree with the same operations on the code units.
  \<^verbatim>\<open>new TextEncoder().encode(s)\<close> is then the identity up to the type of a byte.
\<close>

type_synonym u8 = "8 word"
type_synonym u32 = "32 word"

definition encode :: "string \<Rightarrow> u8 list" where
  "encode s = map of_char s"

definition startsWith :: "string \<Rightarrow> string \<Rightarrow> bool" where
  "startsWith s p = (take (length p) s = p)"

fun str_includes :: "string \<Rightarrow> string \<Rightarrow> bool" where
  "str_includes [] p = (p = [])"
| "str_includes (c # cs) p = (startsWith (c # cs) p \<or> str_includes cs p)"

text \<open>\<^verbatim>\<open>s.split(c)\<close> for a one-character separator: every occurrence separates.\<close>

fun split :: "char \<Rightarrow> string \<Rightarrow> string list" where
  "split sep [] = [[]]"
| "split sep (c # cs) =
     (if c = sep then [] # split sep cs
      else (case split sep cs of [] \<Rightarrow> [[c]] | p # ps \<Rightarrow> (c # p) # ps))"

fun join :: "char \<Rightarrow> string list \<Rightarrow> string" where
  "join sep [] = []"
| "join sep [p] = p"
| "join sep (p # q # ps) = p @ sep # join sep (q # ps)"

text \<open>
  \<^verbatim>\<open>s.trim()\<close> removes white space and line terminators from both ends: the ASCII
  ones and, in their UTF-8 form, U+00A0, U+1680, U+2000 to U+200A, U+2028, U+2029,
  U+202F, U+205F, U+3000 and U+FEFF.
\<close>

definition white_space :: "string list" where
  "white_space =
     [[CHR 0x09], [CHR 0x0A], [CHR 0x0B], [CHR 0x0C], [CHR 0x0D], [CHR 0x20],
      [CHR 0xC2, CHR 0xA0], [CHR 0xE1, CHR 0x9A, CHR 0x80],
      [CHR 0xE2, CHR 0x80, CHR 0x80], [CHR 0xE2, CHR 0x80, CHR 0x81],
      [CHR 0xE2, CHR 0x80, CHR 0x82], [CHR 0xE2, CHR 0x80, CHR 0x83],
      [CHR 0xE2, CHR 0x80, CHR 0x84], [CHR 0xE2, CHR 0x80, CHR 0x85],
      [CHR 0xE2, CHR 0x80, CHR 0x86], [CHR 0xE2, CHR 0x80, CHR 0x87],
      [CHR 0xE2, CHR 0x80, CHR 0x88], [CHR 0xE2, CHR 0x80, CHR 0x89],
      [CHR 0xE2, CHR 0x80, CHR 0x8A], [CHR 0xE2, CHR 0x80, CHR 0xA8],
      [CHR 0xE2, CHR 0x80, CHR 0xA9], [CHR 0xE2, CHR 0x80, CHR 0xAF],
      [CHR 0xE2, CHR 0x81, CHR 0x9F], [CHR 0xE3, CHR 0x80, CHR 0x80],
      [CHR 0xEF, CHR 0xBB, CHR 0xBF]]"

function trimStart :: "string \<Rightarrow> string" where
  "trimStart s =
     (case find (\<lambda>ws. startsWith s ws) white_space of
        None \<Rightarrow> s
      | Some ws \<Rightarrow> if ws = [] \<or> length s < length ws then s else trimStart (drop (length ws) s))"
  by pat_completeness auto
termination
  by (relation "measure length") (auto simp: neq_Nil_conv)

function trimEnd :: "string \<Rightarrow> string" where
  "trimEnd s =
     (case find (\<lambda>ws. startsWith (rev s) (rev ws)) white_space of
        None \<Rightarrow> s
      | Some ws \<Rightarrow> if ws = [] \<or> length s < length ws then s
                  else trimEnd (take (length s - length ws) s))"
  by pat_completeness auto
termination
  by (relation "measure length") (auto simp: neq_Nil_conv)

definition trim :: "string \<Rightarrow> string" where
  "trim s = trimEnd (trimStart s)"

section \<open>The Web Crypto primitives: SHA-256 and HMAC-SHA-256\<close>

text \<open>
  \<^verbatim>\<open>crypto.subtle.digest('SHA-256', data)\<close> and \<^verbatim>\<open>crypto.subtle.sign('HMAC', key, data)\<close>
  are platform functions, fixed by FIPS 180-4 and RFC 2104. They are written out here,
  so that the signature of worker.js is a closed, executable function; both are checked
  against a published example below.
\<close>

definition K256 :: "u32 list" where
  "K256 =
    [0x428A2F98, 0x71374491, 0xB5C0FBCF, 0xE9B5DBA5, 0x3956C25B, 0x59F111F1, 0x923F82A4, 0xAB1C5ED5,
     0xD807AA98, 0x12835B01, 0x243185BE, 0x550C7DC3, 0x72BE5D74, 0x80DEB1FE, 0x9BDC06A7, 0xC19BF174,
     0xE49B69C1, 0xEFBE4786, 0x0FC19DC6, 0x240CA1CC, 0x2DE92C6F, 0x4A7484AA, 0x5CB0A9DC, 0x76F988DA,
     0x983E5152, 0xA831C66D, 0xB00327C8, 0xBF597FC7, 0xC6E00BF3, 0xD5A79147, 0x06CA6351, 0x14292967,
     0x27B70A85, 0x2E1B2138, 0x4D2C6DFC, 0x53380D13, 0x650A7354, 0x766A0ABB, 0x81C2C92E, 0x92722C85,
     0xA2BFE8A1, 0xA81A664B, 0xC24B8B70, 0xC76C51A3, 0xD192E819, 0xD6990624, 0xF40E3585, 0x106AA070,
     0x19A4C116, 0x1E376C08, 0x2748774C, 0x34B0BCB5, 0x391C0CB3, 0x4ED8AA4A, 0x5B9CCA4F, 0x682E6FF3,
     0x748F82EE, 0x78A5636F, 0x84C87814, 0x8CC70208, 0x90BEFFFA, 0xA4506CEB, 0xBEF9A3F7, 0xC67178F2]"

definition H256 :: "u32 list" where
  "H256 =
    [0x6A09E667, 0xBB67AE85, 0x3C6EF372, 0xA54FF53A, 0x510E527F, 0x9B05688C, 0x1F83D9AB, 0x5BE0CD19]"

definition ssig0 :: "u32 \<Rightarrow> u32" where
  "ssig0 x = word_rotr 7 x XOR word_rotr 18 x XOR drop_bit 3 x"

definition ssig1 :: "u32 \<Rightarrow> u32" where
  "ssig1 x = word_rotr 17 x XOR word_rotr 19 x XOR drop_bit 10 x"

definition bsig0 :: "u32 \<Rightarrow> u32" where
  "bsig0 x = word_rotr 2 x XOR word_rotr 13 x XOR word_rotr 22 x"

definition bsig1 :: "u32 \<Rightarrow> u32" where
  "bsig1 x = word_rotr 6 x XOR word_rotr 11 x XOR word_rotr 25 x"

definition ch :: "u32 \<Rightarrow> u32 \<Rightarrow> u32 \<Rightarrow> u32" where
  "ch x y z = (x AND y) XOR (NOT x AND z)"

definition maj :: "u32 \<Rightarrow> u32 \<Rightarrow> u32 \<Rightarrow> u32" where
  "maj x y z = (x AND y) XOR (x AND z) XOR (y AND z)"

definition be32 :: "u8 list \<Rightarrow> u32" where
  "be32 bs = foldl (\<lambda>acc b. push_bit 8 acc OR ucast b) 0 bs"

definition u32_bytes :: "u32 \<Rightarrow> u8 list" where
  "u32_bytes w = [ucast (drop_bit 24 w), ucast (drop_bit 16 w), ucast (drop_bit 8 w), ucast w]"

definition len_bytes :: "nat \<Rightarrow> u8 list" where
  "len_bytes n = map (\<lambda>i. ucast (drop_bit (8 * i) (of_nat n :: 64 word))) [7, 6, 5, 4, 3, 2, 1, 0]"

definition sha_pad :: "u8 list \<Rightarrow> u8 list" where
  "sha_pad m =
     m @ [0x80] @ replicate ((119 - length m mod 64) mod 64) 0 @ len_bytes (8 * length m)"

fun chunks :: "nat \<Rightarrow> 'a list \<Rightarrow> 'a list list" where
  "chunks n [] = []"
| "chunks n (x # xs) = take n (x # xs) # chunks n (drop (n - 1) xs)"

fun schedule :: "nat \<Rightarrow> u32 list \<Rightarrow> u32 list" where
  "schedule 0 w = w"
| "schedule (Suc n) w =
     (let t = length w in
      schedule n
        (w @ [ssig1 (w ! (t - 2)) + w ! (t - 7) + ssig0 (w ! (t - 15)) + w ! (t - 16)]))"

type_synonym sha_state = "u32 \<times> u32 \<times> u32 \<times> u32 \<times> u32 \<times> u32 \<times> u32 \<times> u32"

fun round256 :: "sha_state \<Rightarrow> u32 \<times> u32 \<Rightarrow> sha_state" where
  "round256 (a, b, c, d, e, f, g, h) (k, w) =
     (let t1 = h + bsig1 e + ch e f g + k + w;
          t2 = bsig0 a + maj a b c
      in (t1 + t2, a, b, c, d + t1, e, f, g))"

fun state_words :: "sha_state \<Rightarrow> u32 list" where
  "state_words (a, b, c, d, e, f, g, h) = [a, b, c, d, e, f, g, h]"

definition compress :: "u32 list \<Rightarrow> u8 list \<Rightarrow> u32 list" where
  "compress hs blk =
     (let w = schedule 48 (map be32 (chunks 4 blk));
          s = foldl round256
                (hs ! 0, hs ! 1, hs ! 2, hs ! 3, hs ! 4, hs ! 5, hs ! 6, hs ! 7) (zip K256 w)
      in map2 (+) hs (state_words s))"

definition sha256 :: "u8 list \<Rightarrow> u8 list" where
  "sha256 m = concat (map u32_bytes (foldl compress H256 (chunks 64 (sha_pad m))))"

definition hmac_sha256 :: "u8 list \<Rightarrow> u8 list \<Rightarrow> u8 list" where
  "hmac_sha256 key m =
     (let k1 = (if length key > 64 then sha256 key else key);
          k0 = k1 @ replicate (64 - length k1) 0
      in sha256 (map (\<lambda>b. b XOR 0x5c) k0 @ sha256 (map (\<lambda>b. b XOR 0x36) k0 @ m)))"

section \<open>Identity tag codec\<close>

text \<open>
  \<^verbatim>\<open>b.toString(16).padStart(2, '0')\<close>: a byte as two lower-case hexadecimal digits.
\<close>

definition hex_digit :: "nat \<Rightarrow> char" where
  "hex_digit n = ''0123456789abcdef'' ! n"

definition hex_byte :: "u8 \<Rightarrow> string" where
  "hex_byte b = [hex_digit (unat b div 16), hex_digit (unat b mod 16)]"

definition to_hex :: "u8 list \<Rightarrow> string" where
  "to_hex bs = concat (map hex_byte bs)"

text \<open>
  The secret is the value of \<^verbatim>\<open>env.USER_ID_SECRET\<close>; the empty string stands for both
  the empty and the unset secret, which \<^verbatim>\<open>!secret\<close> does not tell apart. The identifier
  is the string that the template literal puts into the signed text.
\<close>

definition generateUserIdSignature :: "string \<Rightarrow> string \<Rightarrow> string" where
  "generateUserIdSignature userId secret =
     (if secret = [] then
        take 16 (to_hex (sha256 (encode (''user:'' @ userId @ '':fallback''))))
      else
        take 16 (to_hex (hmac_sha256 (encode secret) (encode (''user:'' @ userId)))))"

definition verifyUserIdSignature :: "string \<Rightarrow> string \<Rightarrow> string \<Rightarrow> bool" where
  "verifyUserIdSignature userId signature secret =
     (let expectedSignature = generateUserIdSignature userId secret
      in signature = expectedSignature)"

definition createSecureUserTag :: "string \<Rightarrow> string \<Rightarrow> string" where
  "createSecureUserTag userId secret =
     (let signature = generateUserIdSignature userId secret
      in ''[USER:'' @ userId @ '':'' @ signature @ '']'')"

subsection \<open>The two regular expressions\<close>

definition is_digit :: "char \<Rightarrow> bool" where
  "is_digit c = (c \<in> set ''0123456789'')"

definition is_hex_lower :: "char \<Rightarrow> bool" where
  "is_hex_lower c = (c \<in> set ''abcdef0123456789'')"

definition is_word :: "char \<Rightarrow> bool" where
  "is_word c =
     (c \<in> set ''ABCDEFGHIJKLMNOPQRSTUVWXYZabcdefghijklmnopqrstuvwxyz0123456789_'')"

text \<open>A literal of the pattern at the current position: the rest of the input, if it is there.\<close>

definition lit :: "string \<Rightarrow> string \<Rightarrow> string option" where
  "lit p t = (if startsWith t p then Some (drop (length p) t) else None)"

text \<open>
  \<^verbatim>\<open>/\[USER:(\d+):([a-f0-9]{16})\]/\<close> anchored at the start of \<open>t\<close>. The greedy \<^verbatim>\<open>\d+\<close>
  takes every digit; giving one back could not help, since a colon must follow.
\<close>

definition secure_at :: "string \<Rightarrow> (string \<times> string) option" where
  "secure_at t =
     (case lit ''[USER:'' t of
        None \<Rightarrow> None
      | Some r \<Rightarrow>
          (let ds = takeWhile is_digit r in
           if ds = [] then None
           else (case lit '':'' (dropWhile is_digit r) of
                   None \<Rightarrow> None
                 | Some r2 \<Rightarrow>
                     (let sg = take 16 r2 in
                      if length sg = 16 \<and> list_all is_hex_lower sg
                      then (case lit '']'' (drop 16 r2) of
                              None \<Rightarrow> None
                            | Some r3 \<Rightarrow> Some (ds, sg))
                      else None))))"

text \<open>
  \<^verbatim>\<open>/\[USER:(\d+)\](?![:\w])/\<close> anchored at the start of \<open>t\<close>. The negative lookahead
  \<^verbatim>\<open>(?![:\w])\<close> fails when the input goes on with a colon or a word character; at the
  end of the input it succeeds.
\<close>

definition colon_or_word_next :: "string \<Rightarrow> bool" where
  "colon_or_word_next r = (case r of [] \<Rightarrow> False | c # cs \<Rightarrow> c = CHR '':'' \<or> is_word c)"

definition legacy_at :: "string \<Rightarrow> string option" where
  "legacy_at t =
     (case lit ''[USER:'' t of
        None \<Rightarrow> None
      | Some r \<Rightarrow>
          (let ds = takeWhile is_digit r in
           if ds = [] then None
           else (case lit '']'' (dropWhile is_digit r) of
                   None \<Rightarrow> None
                 | Some r2 \<Rightarrow> if colon_or_word_next r2 then None else Some ds)))"

text \<open>\<^verbatim>\<open>text.match(re)\<close> without the global flag: the match at the leftmost position.\<close>

fun match :: "(string \<Rightarrow> 'a option) \<Rightarrow> string \<Rightarrow> 'a option" where
  "match re [] = re []"
| "match re (c # cs) = (case re (c # cs) of Some m \<Rightarrow> Some m | None \<Rightarrow> match re cs)"

definition extractUserChatId :: "string option \<Rightarrow> string \<Rightarrow> string option" where
  "extractUserChatId messageText secret =
     (case messageText of
        None \<Rightarrow> None
      | Some t \<Rightarrow>
          if t = [] then None
          else (case match secure_at t of
                  Some (userId, signature) \<Rightarrow>
                    if verifyUserIdSignature userId signature secret then Some userId else None
                | None \<Rightarrow>
                    (case match legacy_at t of
                       Some userId \<Rightarrow> Some userId
                     | None \<Rightarrow> None)))"

text \<open>A conversation identifier as it appears in a tag: one or more decimal digits.\<close>

definition is_id :: "string \<Rightarrow> bool" where
  "is_id s = (s \<noteq> [] \<and> list_all is_digit s)"

section \<open>Command parser\<close>

text \<open>
  The \<^verbatim>\<open>userIds\<close> of a parsed command: the string \<^verbatim>\<open>'all'\<close> or an array of identifiers.
  The test \<^verbatim>\<open>/^\d+$/.test(id)\<close> is \<^const>\<open>is_id\<close>.
\<close>

datatype targets = AllUsers | Ids "string list"

definition parsePostTargets :: "string \<Rightarrow> targets \<times> string" where
  "parsePostTargets commandText =
     (if commandText = [] then (Ids [], [])
      else
        (let parts = split CHR '' '' commandText in
         if length parts < 2 then (Ids [], [])
         else
           (let targetsStr = hd parts;
                message = join CHR '' '' (tl parts)
            in if targetsStr = ''all'' then (AllUsers, message)
               else (Ids (filter is_id (map trim (split CHR '','' targetsStr))), message))))"

section \<open>Messages, environment and effects\<close>

text \<open>
  A conversation identifier is a number where it comes from Telegram or from the stored
  list, and a string where it was typed in a command or read back from a tag.
\<close>

datatype chat_ref = NumId int | StrId string

record tg_from =
  username :: "string option"
  first_name :: "string option"
  from_id :: int

record replied_message =
  r_message_id :: int
  r_text :: "string option"
  r_caption :: "string option"

record message =
  m_message_id :: int
  m_from :: tg_from
  m_chat_id :: int
  m_text :: "string option"
  m_caption :: "string option"
  m_reply_to_message :: "replied_message option"

record env =
  ADMIN_CHAT_ID :: string
  ENABLE_USER_TRACKING :: "string option"
  USER_ID_SECRET :: string
  USER_STORAGE :: bool

text \<open>
  A record of the stored list. \<open>lastActive\<close> is the time stamp in milliseconds: the code
  stores \<^verbatim>\<open>new Date().toISOString()\<close> and compares \<^verbatim>\<open>new Date(lastActive).getTime()\<close>, which
  gives the milliseconds back.
\<close>

record user_rec =
  chatId :: int
  userName :: string
  userId :: int
  lastActive :: int

record user_info =
  ui_userName :: string
  ui_userId :: int
  ui_chatId :: int
  ui_time :: int

datatype diag = NoRecipients | NoValidIds | UserError chat_ref string

text \<open>
  The texts that the bot sends are fixed templates; a value of \<open>out_text\<close> names the
  template and carries what is interpolated into it.
\<close>

datatype out_text =
    Welcome
  | ForwardedText user_info string string
  | ForwardedCaption user_info "string option" string
  | Delivered
  | DeliveryFailed
  | AdminPanel bool
  | StatusReport "nat option"
  | HelpText
  | PostUsage
  | MissingContent
  | TrackingRequired
  | NoValidUserIds
  | BroadcastStarting nat
  | BroadcastReport nat nat "diag list" nat
  | TrackingDisabled
  | NoUsersYet
  | UsersList "user_rec list" nat
  | MediaBroadcastStarting nat
  | MediaBroadcastReport nat nat
  | Unrecognized
  | AdminReply string
  | AdminReplyCaption "string option"
  | ReplySent string
  | ReplyFailed "string option"
  | Hint
  | HandlerError string
  | Broadcast string

text \<open>
  \<open>SendMessage chat text reply_to_message_id\<close> and
  \<open>CopyMessage chat from_chat message_id caption\<close> are the two requests to the Bot API.
\<close>

datatype api_call =
    SendMessage chat_ref out_text "int option"
  | CopyMessage chat_ref chat_ref "int option" "out_text option"

text \<open>
  A request throws (the fetch fails, the status is not 2xx, or the body is not JSON), or
  returns the parsed response with its \<open>ok\<close> and \<open>description\<close>.
\<close>

datatype outcome = Throws string | Returns bool "string option"

datatype event =
    Issued api_call
  | Settled api_call outcome
  | Delay nat
  | Put "user_rec list"

text \<open>
  What is stored under the key \<^verbatim>\<open>user_list\<close>: nothing, something that is not a JSON array,
  or a list of records. Reading and writing the store are taken to succeed; the code
  catches and logs their failures. Logging is left out of the model.
\<close>

datatype kv_value = Absent | Garbage | UserList "user_rec list"

record world =
  kv :: kv_value
  trace :: "event list"

text \<open>
  The surroundings of a run: the outcome of a request, given the number of events before
  it was issued; the order in which the pending requests of a batch settle (at each step
  the pending request at index \<open>settle_choice t mod n\<close> settles, for \<open>t\<close> events so far and
  \<open>n\<close> requests pending); and the clock.
\<close>

record surroundings =
  transport :: "nat \<Rightarrow> api_call \<Rightarrow> outcome"
  settle_choice :: "nat \<Rightarrow> nat"
  now :: int

definition truthy :: "string option \<Rightarrow> bool" where
  "truthy s = (case s of None \<Rightarrow> False | Some t \<Rightarrow> t \<noteq> [])"

definition digit_char :: "nat \<Rightarrow> char" where
  "digit_char n = ''0123456789'' ! n"

function show_nat :: "nat \<Rightarrow> string" where
  "show_nat n = (if n < 10 then [digit_char n] else show_nat (n div 10) @ [digit_char (n mod 10)])"
  by pat_completeness auto
termination
  by (relation "measure id") auto

text \<open>\<^verbatim>\<open>`${n}`\<close> and \<^verbatim>\<open>n.toString()\<close> for an integer \<open>n\<close>.\<close>

definition show_int :: "int \<Rightarrow> string" where
  "show_int i = (if i < 0 then CHR ''-'' # show_nat (nat (- i)) else show_nat (nat i))"

type_synonym 'a io = "world \<Rightarrow> (string + 'a) \<times> world"

definition and_then :: "(string + 'a) \<times> world \<Rightarrow> ('a \<Rightarrow> 'b io) \<Rightarrow> (string + 'b) \<times> world" where
  "and_then r f = (case r of (Inl e, w) \<Rightarrow> (Inl e, w) | (Inr a, w) \<Rightarrow> f a w)"

definition finished :: "(string + 'a) \<times> world \<Rightarrow> (string + unit) \<times> world" where
  "finished r = (case r of (Inl e, w) \<Rightarrow> (Inl e, w) | (Inr a, w) \<Rightarrow> (Inr (), w))"

definition callTelegramAPI :: "surroundings \<Rightarrow> api_call \<Rightarrow> (bool \<times> string option) io" where
  "callTelegramAPI orc c w =
     (let r = transport orc (length (trace w)) c;
          w' = w\<lparr>trace := trace w @ [Issued c, Settled c r]\<rparr>
      in case r of Throws e \<Rightarrow> (Inl e, w') | Returns ok d \<Rightarrow> (Inr (ok, d), w'))"

definition sendMessage ::
  "surroundings \<Rightarrow> chat_ref \<Rightarrow> out_text \<Rightarrow> int option \<Rightarrow> (bool \<times> string option) io" where
  "sendMessage orc chat txt reply_to = callTelegramAPI orc (SendMessage chat txt reply_to)"

definition copyMessage ::
  "surroundings \<Rightarrow> chat_ref \<Rightarrow> chat_ref \<Rightarrow> int option \<Rightarrow> out_text option \<Rightarrow> (bool \<times> string option) io" where
  "copyMessage orc chat fromChat messageId cap =
     callTelegramAPI orc (CopyMessage chat fromChat messageId cap)"

section \<open>Directory store\<close>

definition getUsersFromKV :: "env \<Rightarrow> world \<Rightarrow> user_rec list" where
  "getUsersFromKV e w =
     (if \<not> USER_STORAGE e then []
      else (case kv w of Absent \<Rightarrow> [] | Garbage \<Rightarrow> [] | UserList users \<Rightarrow> users))"

fun findIndex :: "('a \<Rightarrow> bool) \<Rightarrow> 'a list \<Rightarrow> nat option" where
  "findIndex p [] = None"
| "findIndex p (x # xs) =
     (if p x then Some 0 else (case findIndex p xs of None \<Rightarrow> None | Some i \<Rightarrow> Some (Suc i)))"

text \<open>
  \<^verbatim>\<open>users.sort((a, b) => time(b) - time(a))\<close> is a stable sort, most recent first.
\<close>

definition sort_by_recency :: "user_rec list \<Rightarrow> user_rec list" where
  "sort_by_recency users = sort_key (\<lambda>u. - lastActive u) users"

definition addUserToKV :: "int \<Rightarrow> user_info \<Rightarrow> env \<Rightarrow> surroundings \<Rightarrow> world \<Rightarrow> world" where
  "addUserToKV cid userInfo e orc w =
     (if \<not> USER_STORAGE e then w
      else
        (let users = getUsersFromKV e w;
             existingIndex = findIndex (\<lambda>u. chatId u = cid) users;
             userData = \<lparr>chatId = cid, userName = ui_userName userInfo,
                         userId = ui_userId userInfo, lastActive = now orc\<rparr>;
             users1 = (case existingIndex of
                         Some i \<Rightarrow> users[i := userData]
                       | None \<Rightarrow> users @ [userData]);
             users2 = (if length users1 > 1000 then take 1000 (sort_by_recency users1)
                       else users1)
         in w\<lparr>kv := UserList users2, trace := trace w @ [Put users2]\<rparr>))"

text \<open>The list that an upsert stores, as a function of the list that it read.\<close>

definition upsert :: "int \<Rightarrow> user_info \<Rightarrow> int \<Rightarrow> user_rec list \<Rightarrow> user_rec list" where
  "upsert cid userInfo t users =
     (let userData = \<lparr>chatId = cid, userName = ui_userName userInfo,
                       userId = ui_userId userInfo, lastActive = t\<rparr>;
          users1 = (case findIndex (\<lambda>u. chatId u = cid) users of
                      Some i \<Rightarrow> users[i := userData]
                    | None \<Rightarrow> users @ [userData])
      in if length users1 > 1000 then take 1000 (sort_by_recency users1) else users1)"

text \<open>A run of upserts, each with its own surroundings, so with its own clock.\<close>

fun upserts :: "(int \<times> user_info \<times> surroundings) list \<Rightarrow> env \<Rightarrow> world \<Rightarrow> world" where
  "upserts [] e w = w"
| "upserts ((cid, userInfo, orc) # rest) e w = upserts rest e (addUserToKV cid userInfo e orc w)"

section \<open>Broadcast fan-out\<close>

record bresult =
  success :: nat
  failed :: nat
  errors :: "diag list"

definition broadcast_call :: "env \<Rightarrow> bool \<Rightarrow> int option \<Rightarrow> string \<Rightarrow> chat_ref \<Rightarrow> api_call" where
  "broadcast_call e isMedia messageId msg chat =
     (if isMedia then CopyMessage chat (StrId (ADMIN_CHAT_ID e)) messageId (Some (Broadcast msg))
      else SendMessage chat (Broadcast msg) None)"

text \<open>
  \<^verbatim>\<open>batch.map(async (chatId) => ...)\<close> starts the request of every member of the batch, in
  order, before any of them settles.
\<close>

fun issue_all ::
  "surroundings \<Rightarrow> (chat_ref \<times> api_call) list \<Rightarrow> world \<Rightarrow> (chat_ref \<times> api_call \<times> outcome) list \<times> world" where
  "issue_all orc [] w = ([], w)"
| "issue_all orc ((chat, c) # cs) w =
     (let r = transport orc (length (trace w)) c;
          (ps, w') = issue_all orc cs (w\<lparr>trace := trace w @ [Issued c]\<rparr>)
      in ((chat, c, r) # ps, w'))"

text \<open>The \<^verbatim>\<open>try\<close>/\<^verbatim>\<open>catch\<close> around one delivery: what settling it does to the counts.\<close>

definition tally :: "bresult \<Rightarrow> chat_ref \<Rightarrow> outcome \<Rightarrow> bresult" where
  "tally res chat r =
     (case r of
        Returns ok d \<Rightarrow> res\<lparr>success := success res + 1\<rparr>
      | Throws e \<Rightarrow> res\<lparr>failed := failed res + 1, errors := errors res @ [UserError chat e]\<rparr>)"

definition remove_nth :: "nat \<Rightarrow> 'a list \<Rightarrow> 'a list" where
  "remove_nth k xs = take k xs @ drop (Suc k) xs"

text \<open>
  \<^verbatim>\<open>await Promise.allSettled(promises)\<close>: the pending requests settle one by one, in the
  order that the surroundings choose, until none is pending.
\<close>

function settle_all ::
  "surroundings \<Rightarrow> (chat_ref \<times> api_call \<times> outcome) list \<Rightarrow> bresult \<Rightarrow> world \<Rightarrow> bresult \<times> world" where
  "settle_all orc ps res w =
     (if ps = [] then (res, w)
      else
        (let k = settle_choice orc (length (trace w)) mod length ps;
             chat = fst (ps ! k);
             c = fst (snd (ps ! k));
             r = snd (snd (ps ! k))
         in settle_all orc (remove_nth k ps) (tally res chat r)
              (w\<lparr>trace := trace w @ [Settled c r]\<rparr>)))"
  by pat_completeness auto
termination
proof (relation "measure (\<lambda>(orc, ps, res, w). length ps)", goal_cases)
  case 1
  show ?case by simp
next
  case (2 orc ps res w k)
  then have "k < length ps"
    by simp
  then show ?case
    by (simp add: remove_nth_def)
qed

definition batchSize :: nat where
  "batchSize = 10"

function broadcast_loop ::
  "surroundings \<Rightarrow> (chat_ref \<Rightarrow> api_call) \<Rightarrow> nat \<Rightarrow> chat_ref list \<Rightarrow> bresult \<Rightarrow> world \<Rightarrow> bresult \<times> world" where
  "broadcast_loop orc mk i targetUserIds res w =
     (if i < length targetUserIds then
        (let batch = take batchSize (drop i targetUserIds);
             (ps, w1) = issue_all orc (map (\<lambda>chat. (chat, mk chat)) batch) w;
             (res1, w2) = settle_all orc ps res w1;
             w3 = (if i + batchSize < length targetUserIds
                   then w2\<lparr>trace := trace w2 @ [Delay 100]\<rparr> else w2)
         in broadcast_loop orc mk (i + batchSize) targetUserIds res1 w3)
      else (res, w))"
  by pat_completeness auto
termination
  by (relation "measure (\<lambda>(orc, mk, i, targetUserIds, res, w). length targetUserIds - i)")
    (auto simp: batchSize_def)

definition broadcastMessage ::
  "targets \<Rightarrow> string \<Rightarrow> env \<Rightarrow> bool \<Rightarrow> int option \<Rightarrow> surroundings \<Rightarrow> world \<Rightarrow> bresult \<times> world" where
  "broadcastMessage ids msg e isMedia messageId orc w =
     (let results = \<lparr>success = 0, failed = 0, errors = []\<rparr>;
          targetUserIds = (case ids of
                             AllUsers \<Rightarrow> map (\<lambda>u. NumId (chatId u)) (getUsersFromKV e w)
                           | Ids l \<Rightarrow> map StrId l)
      in if ids = AllUsers \<and> targetUserIds = [] then
           (\<lparr>success = 0, failed = 1, errors = [NoRecipients]\<rparr>, w)
         else if targetUserIds = [] then
           (\<lparr>success = 0, failed = 1, errors = [NoValidIds]\<rparr>, w)
         else broadcast_loop orc (broadcast_call e isMedia messageId msg) 0 targetUserIds results w)"

declare settle_all.simps [simp del] broadcast_loop.simps [simp del]

section \<open>Reading a trace\<close>

text \<open>The conversation that a request is addressed to.\<close>

definition target :: "api_call \<Rightarrow> chat_ref" where
  "target c = (case c of SendMessage chat txt reply_to \<Rightarrow> chat
                       | CopyMessage chat fromChat messageId cap \<Rightarrow> chat)"

fun is_Settled :: "event \<Rightarrow> bool" where
  "is_Settled (Settled c r) = True"
| "is_Settled ev = False"

fun settled_calls :: "event list \<Rightarrow> api_call list" where
  "settled_calls [] = []"
| "settled_calls (Settled c r # evs) = c # settled_calls evs"
| "settled_calls (ev # evs) = settled_calls evs"

text \<open>
  What a trace says about deliveries: the number of settled requests that returned, the
  diagnostic \<^verbatim>\<open>`${chatId}: ${error.message}`\<close> of every settled request that threw, in the
  order of settling, and the number of pacing delays.
\<close>

fun returned :: "event list \<Rightarrow> nat" where
  "returned [] = 0"
| "returned (Settled c (Returns ok d) # evs) = Suc (returned evs)"
| "returned (ev # evs) = returned evs"

fun failures :: "event list \<Rightarrow> diag list" where
  "failures [] = []"
| "failures (Settled c (Throws err) # evs) = UserError (target c) err # failures evs"
| "failures (ev # evs) = failures evs"

fun delays :: "event list \<Rightarrow> nat" where
  "delays [] = 0"
| "delays (Delay d # evs) = Suc (delays evs)"
| "delays (ev # evs) = delays evs"

text \<open>
  A trace is batched along a list of batches of requests when it is, batch after batch,
  the requests of the batch issued in order, then as many settlements, one of every
  request of the batch in any order, then a delay of 100 ms unless the batch is the last.
\<close>

fun batched :: "api_call list list \<Rightarrow> event list \<Rightarrow> bool" where
  "batched [] evs = (evs = [])"
| "batched (b # bs) evs =
     (let n = length b;
          settled = take n (drop n evs);
          rest = drop (2 * n) evs
      in take n evs = map Issued b \<and>
         length settled = n \<and> list_all is_Settled settled \<and> mset (settled_calls settled) = mset b \<and>
         (if bs = [] then rest = []
          else (case rest of Delay d # rest' \<Rightarrow> d = 100 \<and> batched bs rest' | _ \<Rightarrow> False)))"

text \<open>
  The requests that a trace issues, in order, and whether a run from \<open>w\<close> to \<open>w'\<close> only
  added events whose requests are all \<^verbatim>\<open>sendMessage\<close>, none \<^verbatim>\<open>copyMessage\<close>.
\<close>

fun is_send :: "api_call \<Rightarrow> bool" where
  "is_send (SendMessage chat txt reply_to) = True"
| "is_send (CopyMessage chat fromChat messageId cap) = False"

fun issued_calls :: "event list \<Rightarrow> api_call list" where
  "issued_calls [] = []"
| "issued_calls (Issued c # evs) = c # issued_calls evs"
| "issued_calls (ev # evs) = issued_calls evs"

definition sends_only :: "world \<Rightarrow> world \<Rightarrow> bool" where
  "sends_only w w' =
     (take (length (trace w)) (trace w') = trace w \<and>
      list_all is_send (issued_calls (drop (length (trace w)) (trace w'))))"

section \<open>Dispatcher\<close>

text \<open>
  The display name, the identifiers and the time of \<^verbatim>\<open>createUserInfo\<close>; the header is made of
  them.
\<close>

definition createUserInfo :: "message \<Rightarrow> surroundings \<Rightarrow> user_info" where
  "createUserInfo msg orc =
     \<lparr>ui_userName =
        (if truthy (username (m_from msg)) then the (username (m_from msg))
         else if truthy (first_name (m_from msg)) then the (first_name (m_from msg))
         else ''Unknown''),
      ui_userId = from_id (m_from msg),
      ui_chatId = m_chat_id msg,
      ui_time = now orc\<rparr>"

text \<open>
  \<^verbatim>\<open>handleUserMessage\<close> after the test for \<^verbatim>\<open>/start\<close>: the message goes to the administrator
  with the tag appended, as text or as a copy with a caption, and the sender gets the
  acknowledgement if the response is \<open>ok\<close>.
\<close>

definition forward_to_admin :: "message \<Rightarrow> user_info \<Rightarrow> env \<Rightarrow> surroundings \<Rightarrow> unit io" where
  "forward_to_admin msg userInfo e orc w =
     (let secureUserTag = createSecureUserTag (show_int (ui_chatId userInfo)) (USER_ID_SECRET e);
          forwardResult =
            (if truthy (m_text msg) then
               sendMessage orc (StrId (ADMIN_CHAT_ID e))
                 (ForwardedText userInfo (the (m_text msg)) secureUserTag) None w
             else
               copyMessage orc (StrId (ADMIN_CHAT_ID e)) (NumId (ui_chatId userInfo))
                 (Some (m_message_id msg))
                 (Some (ForwardedCaption userInfo
                          (if truthy (m_caption msg) then m_caption msg else None) secureUserTag)) w)
      in and_then forwardResult (\<lambda>(ok, d) w'.
           if ok then finished (sendMessage orc (NumId (ui_chatId userInfo)) Delivered None w')
           else (Inr (), w')))"

definition handleUserMessage :: "message \<Rightarrow> env \<Rightarrow> surroundings \<Rightarrow> world \<Rightarrow> world" where
  "handleUserMessage msg e orc w =
     (let userInfo = createUserInfo msg orc;
          w1 = (if ENABLE_USER_TRACKING e = Some ''true''
                then addUserToKV (ui_chatId userInfo) userInfo e orc w else w);
          r = (if m_text msg = Some ''/start''
               then finished (sendMessage orc (NumId (ui_chatId userInfo)) Welcome None w1)
               else forward_to_admin msg userInfo e orc w1)
      in case r of
           (Inr u, w2) \<Rightarrow> w2
         | (Inl err, w2) \<Rightarrow>
             snd (sendMessage orc (NumId (ui_chatId userInfo)) DeliveryFailed None w2))"

text \<open>
  The branches of \<^verbatim>\<open>handleAdminMessage\<close>, in the order of the source: the block for a text
  that starts with \<^verbatim>\<open>/post\<close>, the block for \<^verbatim>\<open>/users\<close>, and the two blocks for a reply, the
  media broadcast and the routed reply.
\<close>

definition post_command :: "message \<Rightarrow> env \<Rightarrow> surroundings \<Rightarrow> unit io" where
  "post_command msg e orc w =
     (let admin = StrId (ADMIN_CHAT_ID e);
          reply_to = Some (m_message_id msg);
          commandText = trim (drop 5 (the (m_text msg)))
      in if commandText = [] then finished (sendMessage orc admin PostUsage reply_to w)
         else
           (let (ids, postMessage) = parsePostTargets commandText in
            if postMessage = [] then finished (sendMessage orc admin MissingContent reply_to w)
            else if ids = AllUsers \<and> ENABLE_USER_TRACKING e \<noteq> Some ''true'' then
              finished (sendMessage orc admin TrackingRequired reply_to w)
            else if ids = Ids [] then
              finished (sendMessage orc admin NoValidUserIds reply_to w)
            else
              (let targetCount = (case ids of
                                    AllUsers \<Rightarrow> length (getUsersFromKV e w)
                                  | Ids l \<Rightarrow> length l)
               in and_then (sendMessage orc admin (BroadcastStarting targetCount) reply_to w)
                    (\<lambda>sent w1.
                       (let (results, w2) = broadcastMessage ids postMessage e False None orc w1
                        in finished
                             (sendMessage orc admin
                                (BroadcastReport (success results) (failed results)
                                   (take 5 (errors results)) (length (errors results) - 5))
                                None w2))))))"

definition users_command :: "message \<Rightarrow> env \<Rightarrow> surroundings \<Rightarrow> unit io" where
  "users_command msg e orc w =
     (let admin = StrId (ADMIN_CHAT_ID e) in
      if ENABLE_USER_TRACKING e \<noteq> Some ''true'' then
        finished (sendMessage orc admin TrackingDisabled None w)
      else
        (let users = getUsersFromKV e w in
         if users = [] then finished (sendMessage orc admin NoUsersYet None w)
         else
           (let recentUsers = take 20 (sort_by_recency users)
            in finished (sendMessage orc admin (UsersList recentUsers (length users)) None w))))"

definition media_broadcast :: "message \<Rightarrow> replied_message \<Rightarrow> env \<Rightarrow> surroundings \<Rightarrow> unit io" where
  "media_broadcast msg repliedMessage e orc w =
     (let admin = StrId (ADMIN_CHAT_ID e);
          reply_to = Some (m_message_id msg);
          commandText = trim (drop 5 (the (m_text msg)));
          (ids, postMessage) = parsePostTargets commandText
      in if postMessage = [] then finished (sendMessage orc admin MissingContent reply_to w)
         else
           (let targetCount = (case ids of
                                 AllUsers \<Rightarrow> length (getUsersFromKV e w)
                               | Ids l \<Rightarrow> length l)
            in and_then (sendMessage orc admin (MediaBroadcastStarting targetCount) reply_to w)
                 (\<lambda>sent w1.
                    (let (results, w2) =
                           broadcastMessage ids postMessage e True
                             (Some (r_message_id repliedMessage)) orc w1
                     in finished
                          (sendMessage orc admin
                             (MediaBroadcastReport (success results) (failed results)) None w2)))))"

definition routed_reply :: "message \<Rightarrow> replied_message \<Rightarrow> env \<Rightarrow> surroundings \<Rightarrow> unit io" where
  "routed_reply msg repliedMessage e orc w =
     (let admin = StrId (ADMIN_CHAT_ID e);
          reply_to = Some (m_message_id msg);
          userChatId =
            extractUserChatId
              (if truthy (r_text repliedMessage) then r_text repliedMessage
               else r_caption repliedMessage)
              (USER_ID_SECRET e)
      in if \<not> truthy userChatId then finished (sendMessage orc admin Unrecognized reply_to w)
         else
           (let replyResult =
                  (if truthy (m_text msg) then
                     sendMessage orc (StrId (the userChatId)) (AdminReply (the (m_text msg))) None w
                   else
                     copyMessage orc (StrId (the userChatId)) admin (Some (m_message_id msg))
                       (Some (AdminReplyCaption
                                (if truthy (m_caption msg) then m_caption msg else None))) w)
            in and_then replyResult (\<lambda>(ok, d) w1.
                 if ok then
                   finished (sendMessage orc admin (ReplySent (the userChatId)) reply_to w1)
                 else
                   finished (sendMessage orc admin
                               (ReplyFailed (if truthy d then d else None)) reply_to w1))))"

definition hasUserTag :: "replied_message \<Rightarrow> bool" where
  "hasUserTag repliedMessage =
     ((case r_text repliedMessage of None \<Rightarrow> False | Some t \<Rightarrow> str_includes t ''[USER:'') \<or>
      (case r_caption repliedMessage of None \<Rightarrow> False | Some t \<Rightarrow> str_includes t ''[USER:''))"

definition is_post :: "message \<Rightarrow> bool" where
  "is_post msg = (truthy (m_text msg) \<and> startsWith (the (m_text msg)) ''/post'')"

definition admin_dispatch :: "message \<Rightarrow> env \<Rightarrow> surroundings \<Rightarrow> unit io" where
  "admin_dispatch msg e orc w =
     (let admin = StrId (ADMIN_CHAT_ID e) in
      if m_text msg = Some ''/start'' then
        finished (sendMessage orc admin
                    (AdminPanel (ENABLE_USER_TRACKING e = Some ''true'')) None w)
      else if m_text msg = Some ''/status'' then
        finished (sendMessage orc admin
                    (StatusReport (if ENABLE_USER_TRACKING e = Some ''true''
                                   then Some (length (getUsersFromKV e w)) else None)) None w)
      else if m_text msg = Some ''/help'' then
        finished (sendMessage orc admin HelpText None w)
      else if is_post msg then post_command msg e orc w
      else if m_text msg = Some ''/users'' then users_command msg e orc w
      else
        (case m_reply_to_message msg of
           Some repliedMessage \<Rightarrow>
             if is_post msg \<and> \<not> hasUserTag repliedMessage
             then media_broadcast msg repliedMessage e orc w
             else routed_reply msg repliedMessage e orc w
         | None \<Rightarrow> finished (sendMessage orc admin Hint (Some (m_message_id msg)) w)))"

text \<open>The \<^verbatim>\<open>catch\<close> of the handler reports the error to the administrator.\<close>

definition handleAdminMessage :: "message \<Rightarrow> env \<Rightarrow> surroundings \<Rightarrow> world \<Rightarrow> world" where
  "handleAdminMessage msg e orc w =
     (case admin_dispatch msg e orc w of
        (Inr u, w1) \<Rightarrow> w1
      | (Inl err, w1) \<Rightarrow>
          snd (sendMessage orc (StrId (ADMIN_CHAT_ID e)) (HandlerError err) None w1))"

text \<open>The message is taken to be well formed: it has a sender and a chat.\<close>

definition handleMessage :: "message \<Rightarrow> env \<Rightarrow> surroundings \<Rightarrow> world \<Rightarrow> world" where
  "handleMessage msg e orc w =
     (let isAdmin = (show_int (m_chat_id msg) = ADMIN_CHAT_ID e)
      in if isAdmin then handleAdminMessage msg e orc w else handleUserMessage msg e orc w)"

text \<open>
  What answering \<^verbatim>\<open>/start\<close> adds to the trace, for \<open>t\<close> events before it: the welcome
  reply and, if sending it throws, the failure notice.
\<close>

definition start_reply :: "message \<Rightarrow> surroundings \<Rightarrow> nat \<Rightarrow> event list" where
  "start_reply msg orc t =
     (let user = NumId (m_chat_id msg);
          welcome = SendMessage user Welcome None;
          notice = SendMessage user DeliveryFailed None
      in case transport orc t welcome of
           Returns ok d \<Rightarrow> [Issued welcome, Settled welcome (Returns ok d)]
         | Throws err \<Rightarrow>
             [Issued welcome, Settled welcome (Throws err),
              Issued notice, Settled notice (transport orc (t + 2) notice)])"

section \<open>Sample inputs\<close>

definition sample_env :: env where
  "sample_env = \<lparr>ADMIN_CHAT_ID = ''999'', ENABLE_USER_TRACKING = Some ''true'',
     USER_ID_SECRET = ''k'', USER_STORAGE = True\<rparr>"

definition quiet :: surroundings where
  "quiet = \<lparr>transport = (\<lambda>n c. Returns True None), settle_choice = (\<lambda>n. 0),
     now = 1700000005000\<rparr>"

definition full_directory :: "user_rec list" where
  "full_directory =
     map (\<lambda>n. \<lparr>chatId = int n, userName = ''user'', userId = int n,
                lastActive = (if n = 999 then 1700000001001 else 1700000001999 - int n)\<rparr>)
       [0..<1000]"

definition newcomer :: user_info where
  "newcomer = \<lparr>ui_userName = ''new'', ui_userId = 1000, ui_chatId = 1000, ui_time = 1700000005000\<rparr>"

definition start_message :: message where
  "start_message =
     \<lparr>m_message_id = 3, m_from = \<lparr>username = Some ''al'', first_name = None, from_id = 42\<rparr>,
      m_chat_id = 42, m_text = Some ''/start'', m_caption = None, m_reply_to_message = None\<rparr>"

definition post_reply :: message where
  "post_reply =
     \<lparr>m_message_id = 5, m_from = \<lparr>username = Some ''boss'', first_name = None, from_id = 999\<rparr>,
      m_chat_id = 999, m_text = Some ''/post 123 hello'', m_caption = None,
      m_reply_to_message = Some \<lparr>r_message_id = 7, r_text = None, r_caption = None\<rparr>\<rparr>"

definition empty_world :: world where
  "empty_world = \<lparr>kv = Absent, trace = []\<rparr>"

definition flaky :: surroundings where
  "flaky = \<lparr>transport = (\<lambda>n c. if n mod 3 = 0 then Throws ''boom'' else Returns True None),
     settle_choice = (\<lambda>n. n), now = 1700000005000\<rparr>"

definition ids23 :: "string list" where
  "ids23 = map (\<lambda>n. show_int (int n)) [1..<24]"

section \<open>Properties of the codec\<close>

lemma length_state_words: "length (state_words s) = 8"
  by (cases s rule: state_words.cases) simp

lemma length_compress: "length hs = 8 \<Longrightarrow> length (compress hs blk) = 8"
  by (simp add: compress_def Let_def length_state_words)

lemma length_foldl_compress: "length hs = 8 \<Longrightarrow> length (foldl compress hs blks) = 8"
  by (induction blks arbitrary: hs) (simp_all add: length_compress)

lemma length_concat_u32_bytes: "length (concat (map u32_bytes ws)) = 4 * length ws"
  by (induction ws) (simp_all add: u32_bytes_def)

lemma length_sha256: "length (sha256 m) = 32"
  by (simp add: sha256_def length_concat_u32_bytes length_foldl_compress H256_def)

lemma length_hmac_sha256: "length (hmac_sha256 key m) = 32"
  by (simp add: hmac_sha256_def Let_def length_sha256)

lemma length_to_hex: "length (to_hex bs) = 2 * length bs"
  by (induction bs) (simp_all add: to_hex_def hex_byte_def)

lemma is_hex_lower_hex_digit: "n < 16 \<Longrightarrow> is_hex_lower (hex_digit n)"
proof -
  assume "n < 16"
  then have "''0123456789abcdef'' ! n \<in> set ''0123456789abcdef''"
    by (intro nth_mem) simp
  then show ?thesis
    unfolding is_hex_lower_def hex_digit_def by auto
qed

lemma list_all_hex_byte: "list_all is_hex_lower (hex_byte b)"
proof -
  have "unat b < 256"
    using unsigned_less [of b] by simp
  then have "unat b div 16 < 16" by simp
  then show ?thesis
    by (simp add: hex_byte_def is_hex_lower_hex_digit)
qed

lemma list_all_to_hex: "list_all is_hex_lower (to_hex bs)"
  by (induction bs) (simp_all add: to_hex_def list_all_hex_byte)

lemma length_signature: "length (generateUserIdSignature i s) = 16"
  by (simp add: generateUserIdSignature_def length_to_hex length_sha256 length_hmac_sha256)

lemma hex_signature: "list_all is_hex_lower (generateUserIdSignature i s)"
proof -
  have "list_all is_hex_lower (take 16 (to_hex bs))" for bs
    using list_all_to_hex [of bs] by (auto simp: list_all_iff dest: in_set_takeD)
  then show ?thesis
    by (simp add: generateUserIdSignature_def)
qed

subsection \<open>What the two patterns match\<close>

lemma lit_iff: "lit p t = Some r \<longleftrightarrow> t = p @ r"
  by (auto simp: lit_def startsWith_def) (metis append_take_drop_id)

lemma lit_None_iff: "lit p t = None \<longleftrightarrow> take (length p) t \<noteq> p"
  by (simp add: lit_def startsWith_def)

lemma not_digit_colon: "\<not> is_digit CHR '':''" and not_digit_close: "\<not> is_digit CHR '']''"
  by (simp_all add: is_digit_def)

lemma secure_at_iff:
  "secure_at t = Some (ds, sg) \<longleftrightarrow>
     (\<exists>rest. t = ''[USER:'' @ ds @ '':'' @ sg @ '']'' @ rest \<and> ds \<noteq> [] \<and> list_all is_digit ds \<and>
        length sg = 16 \<and> list_all is_hex_lower sg)"
  (is "?L \<longleftrightarrow> ?R")
proof
  assume ?L
  then obtain r r2 r3 where r: "t = ''[USER:'' @ r"
    and ds: "ds = takeWhile is_digit r" "ds \<noteq> []"
    and r2: "dropWhile is_digit r = '':'' @ r2"
    and sg: "sg = take 16 r2" "length sg = 16" "list_all is_hex_lower sg"
    and r3: "drop 16 r2 = '']'' @ r3"
    by (auto simp: secure_at_def Let_def lit_iff split: option.splits if_splits)
  have "r = ds @ '':'' @ r2"
    using ds(1) r2 takeWhile_dropWhile_id [of is_digit r] by simp
  moreover have "r2 = sg @ '']'' @ r3"
    using sg(1) r3 append_take_drop_id [of 16 r2] by simp
  moreover have "list_all is_digit ds"
    using ds(1) by (auto simp: list_all_iff dest: set_takeWhileD)
  ultimately show ?R
    using r ds(2) sg(2,3) by auto
next
  assume ?R
  then obtain rest where t: "t = ''[USER:'' @ ds @ '':'' @ sg @ '']'' @ rest"
    and ds: "ds \<noteq> []" "list_all is_digit ds"
    and sg: "length sg = 16" "list_all is_hex_lower sg"
    by blast
  have tw: "takeWhile is_digit (ds @ '':'' @ sg @ '']'' @ rest) = ds"
    using ds(2) by (simp add: takeWhile_append2 list_all_iff not_digit_colon)
  have dw: "dropWhile is_digit (ds @ '':'' @ sg @ '']'' @ rest) = '':'' @ sg @ '']'' @ rest"
    using ds(2) by (simp add: dropWhile_append2 list_all_iff not_digit_colon)
  have l1: "lit ''[USER:'' t = Some (ds @ '':'' @ sg @ '']'' @ rest)"
    unfolding lit_iff t by simp
  have l2: "lit '':'' ('':'' @ sg @ '']'' @ rest) = Some (sg @ '']'' @ rest)"
    unfolding lit_iff by simp
  have l3: "lit '']'' ('']'' @ rest) = Some rest"
    unfolding lit_iff by simp
  show ?L
    unfolding secure_at_def l1 using ds(1) sg l2 l3 tw dw
    by (simp add: Let_def)
qed

lemma legacy_at_iff:
  "legacy_at t = Some ds \<longleftrightarrow>
     (\<exists>rest. t = ''[USER:'' @ ds @ '']'' @ rest \<and> ds \<noteq> [] \<and> list_all is_digit ds \<and>
        \<not> colon_or_word_next rest)"
  (is "?L \<longleftrightarrow> ?R")
proof
  assume ?L
  then obtain r r2 where r: "t = ''[USER:'' @ r"
    and ds: "ds = takeWhile is_digit r" "ds \<noteq> []"
    and r2: "dropWhile is_digit r = '']'' @ r2"
    and nx: "\<not> colon_or_word_next r2"
    by (auto simp: legacy_at_def Let_def lit_iff split: option.splits if_splits)
  have "r = ds @ '']'' @ r2"
    using ds(1) r2 takeWhile_dropWhile_id [of is_digit r] by simp
  moreover have "list_all is_digit ds"
    using ds(1) by (auto simp: list_all_iff dest: set_takeWhileD)
  ultimately show ?R
    using r ds(2) nx by auto
next
  assume ?R
  then obtain rest where t: "t = ''[USER:'' @ ds @ '']'' @ rest"
    and ds: "ds \<noteq> []" "list_all is_digit ds"
    and nx: "\<not> colon_or_word_next rest"
    by blast
  have tw: "takeWhile is_digit (ds @ '']'' @ rest) = ds"
    using ds(2) by (simp add: list_all_iff not_digit_close)
  have dw: "dropWhile is_digit (ds @ '']'' @ rest) = '']'' @ rest"
    using ds(2) by (simp add: list_all_iff not_digit_close)
  have l1: "lit ''[USER:'' t = Some (ds @ '']'' @ rest)"
    unfolding lit_iff t by simp
  have l2: "lit '']'' ('']'' @ rest) = Some rest"
    unfolding lit_iff by simp
  show ?L
    unfolding legacy_at_def l1 using ds(1) nx l2 tw dw
    by (simp add: Let_def)
qed

lemma not_digit_open: "\<not> is_digit CHR ''[''"
  by (simp add: is_digit_def)

lemma not_hex_open: "\<not> is_hex_lower CHR ''[''"
  by (simp add: is_hex_lower_def)

lemma no_open_in_digits: "list_all is_digit ds \<Longrightarrow> CHR ''['' \<notin> set ds"
  using not_digit_open by (auto simp: list_all_iff)

lemma no_open_in_hex: "list_all is_hex_lower sg \<Longrightarrow> CHR ''['' \<notin> set sg"
  using not_hex_open by (auto simp: list_all_iff)

text \<open>
  A match never runs across an opening bracket: if the pattern matches at the start of
  \<open>p @ [ # r\<close> with \<open>p\<close> not empty, the matched text lies inside \<open>p\<close>.
\<close>

lemma inside_prefix:
  assumes eq: "(a # m) @ rest = p @ CHR ''['' # r" and p: "p \<noteq> []"
    and m: "CHR ''['' \<notin> set m"
  shows "\<exists>us. p = (a # m) @ us \<and> rest = us @ CHR ''['' # r"
proof -
  from eq obtain us where
    "(a # m = p @ us \<and> us @ rest = CHR ''['' # r) \<or> ((a # m) @ us = p \<and> rest = us @ CHR ''['' # r)"
    unfolding append_eq_append_conv2 by blast
  then show ?thesis
  proof
    assume h: "a # m = p @ us \<and> us @ rest = CHR ''['' # r"
    show ?thesis
    proof (cases us)
      case Nil
      with h show ?thesis by simp
    next
      case (Cons u us')
      with h have "u = CHR ''[''" by simp
      moreover from p obtain b p' where "p = b # p'" by (cases p) auto
      ultimately have "CHR ''['' \<in> set m"
        using h Cons by auto
      with m show ?thesis by simp
    qed
  next
    assume "(a # m) @ us = p \<and> rest = us @ CHR ''['' # r"
    then show ?thesis by blast
  qed
qed

lemma secure_at_inside:
  assumes "secure_at (p @ CHR ''['' # r) = Some x" and "p \<noteq> []"
  shows "secure_at p = Some x"
proof -
  obtain ds sg where x: "x = (ds, sg)" by (cases x)
  from assms(1) obtain rest where
    t: "p @ CHR ''['' # r = ''[USER:'' @ ds @ '':'' @ sg @ '']'' @ rest"
    and ds: "ds \<noteq> []" "list_all is_digit ds"
    and sg: "length sg = 16" "list_all is_hex_lower sg"
    unfolding x secure_at_iff by blast
  have m: "CHR ''['' \<notin> set (''USER:'' @ ds @ '':'' @ sg @ '']'')"
    using no_open_in_digits [OF ds(2)] no_open_in_hex [OF sg(2)] by simp
  have eq: "(CHR ''['' # (''USER:'' @ ds @ '':'' @ sg @ '']'')) @ rest = p @ CHR ''['' # r"
    using t by simp
  from inside_prefix [OF eq assms(2) m]
  obtain us where "p = (CHR ''['' # (''USER:'' @ ds @ '':'' @ sg @ '']'')) @ us" by auto
  then have "p = ''[USER:'' @ ds @ '':'' @ sg @ '']'' @ us" by simp
  then show ?thesis
    unfolding x secure_at_iff using ds sg by (intro exI [of _ us]) simp
qed

lemma legacy_at_inside:
  assumes "legacy_at (p @ CHR ''['' # r) = Some ds" and "p \<noteq> []"
  shows "legacy_at p = Some ds"
proof -
  from assms(1) obtain rest where
    t: "p @ CHR ''['' # r = ''[USER:'' @ ds @ '']'' @ rest"
    and ds: "ds \<noteq> []" "list_all is_digit ds"
    and nx: "\<not> colon_or_word_next rest"
    unfolding legacy_at_iff by blast
  have m: "CHR ''['' \<notin> set (''USER:'' @ ds @ '']'')"
    using no_open_in_digits [OF ds(2)] by simp
  have eq: "(CHR ''['' # (''USER:'' @ ds @ '']'')) @ rest = p @ CHR ''['' # r"
    using t by simp
  from inside_prefix [OF eq assms(2) m]
  obtain us where us: "p = (CHR ''['' # (''USER:'' @ ds @ '']'')) @ us"
    "rest = us @ CHR ''['' # r" by auto
  have "\<not> colon_or_word_next us"
    using nx us(2) by (cases us) (simp_all add: colon_or_word_next_def)
  moreover have "p = ''[USER:'' @ ds @ '']'' @ us"
    using us(1) by simp
  ultimately show ?thesis
    unfolding legacy_at_iff using ds by (intro exI [of _ us]) simp
qed

lemma match_skips_prefix:
  assumes inside: "\<And>p x. re (p @ CHR ''['' # r) = Some x \<Longrightarrow> p \<noteq> [] \<Longrightarrow> re p = Some x"
  shows "match re pre = None \<Longrightarrow> match re (pre @ CHR ''['' # r) = match re (CHR ''['' # r)"
proof (induction pre)
  case Nil
  then show ?case by simp
next
  case (Cons c cs)
  from Cons.prems have here: "re (c # cs) = None" and later: "match re cs = None"
    by (auto split: option.splits)
  have "re ((c # cs) @ CHR ''['' # r) = None"
  proof (cases "re ((c # cs) @ CHR ''['' # r)")
    case (Some x)
    then have "re (c # cs) = Some x" using inside [of "c # cs" x] by simp
    with here show ?thesis by simp
  qed simp
  then show ?case
    using Cons.IH [OF later] by simp
qed

lemma match_secure_first_tag:
  assumes "match secure_at pre = None" "ds \<noteq> []" "list_all is_digit ds"
    "length sg = 16" "list_all is_hex_lower sg"
  shows "match secure_at (pre @ ''[USER:'' @ ds @ '':'' @ sg @ '']'' @ post) = Some (ds, sg)"
proof -
  have at: "secure_at (''[USER:'' @ ds @ '':'' @ sg @ '']'' @ post) = Some (ds, sg)"
    unfolding secure_at_iff using assms(2-5) by (intro exI [of _ post]) simp
  have "match secure_at (pre @ CHR ''['' # (''USER:'' @ ds @ '':'' @ sg @ '']'' @ post))
      = match secure_at (CHR ''['' # (''USER:'' @ ds @ '':'' @ sg @ '']'' @ post))"
    by (rule match_skips_prefix [OF secure_at_inside assms(1)])
  then show ?thesis
    using at by simp
qed

lemma match_legacy_first_tag:
  assumes "match legacy_at pre = None" "ds \<noteq> []" "list_all is_digit ds"
    "\<not> colon_or_word_next post"
  shows "match legacy_at (pre @ ''[USER:'' @ ds @ '']'' @ post) = Some ds"
proof -
  have at: "legacy_at (''[USER:'' @ ds @ '']'' @ post) = Some ds"
    unfolding legacy_at_iff using assms(2-4) by (intro exI [of _ post]) simp
  have "match legacy_at (pre @ CHR ''['' # (''USER:'' @ ds @ '']'' @ post))
      = match legacy_at (CHR ''['' # (''USER:'' @ ds @ '']'' @ post))"
    by (rule match_skips_prefix [OF legacy_at_inside assms(1)])
  then show ?thesis
    using at by simp
qed

lemma extract_first_signed_tag:
  assumes "is_id i" "match secure_at pre = None"
  shows "extractUserChatId (Some (pre @ createSecureUserTag i s1 @ post)) s2 =
    (if generateUserIdSignature i s1 = generateUserIdSignature i s2 then Some i else None)"
proof -
  have "match secure_at (pre @ ''[USER:'' @ i @ '':'' @ generateUserIdSignature i s1 @ '']'' @ post)
      = Some (i, generateUserIdSignature i s1)"
    by (rule match_secure_first_tag)
      (use assms in \<open>simp_all add: is_id_def length_signature hex_signature\<close>)
  then show ?thesis
    by (simp add: extractUserChatId_def createSecureUserTag_def verifyUserIdSignature_def)
qed

subsection \<open>Signing and verifying\<close>

text \<open>
  The example of FIPS 180-4 for a message of one block, and test case 2 of RFC 4231 for
  HMAC-SHA-256.
\<close>

lemma sha256_abc:
  "to_hex (sha256 (encode ''abc'')) =
     ''ba7816bf8f01cfea414140de5dae2223b00361a396177a9cb410ff61f20015ad''"
  by code_simp

lemma hmac_sha256_jefe:
  "to_hex (hmac_sha256 (encode ''Jefe'') (encode ''what do ya want for nothing?'')) =
     ''5bdcc146bf60754e6a042426089575c75a003f089d2739839dec58b964ec3843''"
  by code_simp

text \<open>
  C9: for every identifier and every secret, the empty or unset one included, verifying
  the signature that sign produced for the same identifier and secret succeeds. Verifying
  accepts that signature and no other, and without a secret the signature is the unkeyed
  digest of the identifier with the fixed suffix.
\<close>

theorem verify_accepts_own_signature:
  "verifyUserIdSignature i (generateUserIdSignature i s) s \<and>
   (verifyUserIdSignature i sg s \<longleftrightarrow> sg = generateUserIdSignature i s) \<and>
   generateUserIdSignature i [] =
     take 16 (to_hex (sha256 (encode (''user:'' @ i @ '':fallback''))))"
  by (simp add: verifyUserIdSignature_def generateUserIdSignature_def)

subsection \<open>Extracting the identifier\<close>

lemmas regex_eval =
  secure_at_def legacy_at_def lit_def startsWith_def colon_or_word_next_def Let_def is_digit_def
  is_word_def is_id_def

lemma hmac_key_zero_padding:
  assumes "length key < 64"
  shows "hmac_sha256 (key @ [0]) m = hmac_sha256 key m"
proof -
  have "64 - length key = Suc (64 - length (key @ [0]))"
    using assms by simp
  then have "(key @ [0]) @ replicate (64 - length (key @ [0])) 0 = key @ replicate (64 - length key) 0"
    by (simp only: replicate_Suc append_assoc append_Cons append_Nil)
  moreover have "\<not> length (key @ [0]) > 64" "\<not> length key > 64"
    using assms by simp_all
  ultimately show ?thesis
    unfolding hmac_sha256_def by (simp only: if_False Let_def)
qed

lemma signature_trailing_nul:
  "generateUserIdSignature i [CHR ''k'', CHR 0x00] = generateUserIdSignature i ''k''"
  using hmac_key_zero_padding [of "encode ''k''" "encode (''user:'' @ i)"]
  by (simp add: generateUserIdSignature_def encode_def)

text \<open>
  C2, as amended: for every identifier (one or more digits) and secret, if the text before
  the embedded tag contains no match of the signed pattern, then extract, called with the
  same secret on the text with the tag embedded, returns the identifier. The text after
  the tag is arbitrary.
\<close>

theorem extract_round_trip:
  assumes "is_id i" and "match secure_at pre = None"
  shows "extractUserChatId (Some (pre @ createSecureUserTag i s @ post)) s = Some i"
  using extract_first_signed_tag [OF assms, of s post s] by simp

theorem extract_round_trip_witness:
  "is_id ''42'' \<and> match secure_at ''hello [USER:7] '' = None \<and>
   extractUserChatId (Some (''hello [USER:7] '' @ createSecureUserTag ''42'' ''k'' @ '' bye'')) ''k''
     = Some ''42''"
proof -
  have a: "is_id ''42''" by (simp add: regex_eval)
  have b: "match secure_at ''hello [USER:7] '' = None" by (simp add: regex_eval)
  show ?thesis
    using a b extract_round_trip [OF a b, of "''k''" "'' bye''"] by simp
qed

text \<open>
  C2 as stated fails when a signed tag stands earlier in the text: extract reads the
  leftmost signed pattern, here the tag of identifier 1, and never reaches the tag of 42.
\<close>

theorem extract_round_trip_counterexample:
  "extractUserChatId
     (Some (createSecureUserTag ''1'' ''k'' @ '' '' @ createSecureUserTag ''42'' ''k'')) ''k''
   \<noteq> Some ''42''"
proof -
  have a: "is_id ''1''" by (simp add: regex_eval)
  have b: "match secure_at [] = None" by (simp add: regex_eval)
  have "extractUserChatId
     (Some ([] @ createSecureUserTag ''1'' ''k'' @ ('' '' @ createSecureUserTag ''42'' ''k''))) ''k''
     = Some ''1''"
    using extract_first_signed_tag [OF a b, of "''k''" _ "''k''"] by simp
  then show ?thesis by simp
qed

text \<open>
  C3, as amended: for every identifier and secrets \<open>s1\<close>, \<open>s2\<close> under which the identifier
  has different signatures, extract with \<open>s2\<close> on the text that is only the tag made with
  \<open>s1\<close> returns null; the legacy pattern is not consulted.
\<close>

theorem extract_other_secret:
  assumes "is_id i" and "generateUserIdSignature i s1 \<noteq> generateUserIdSignature i s2"
  shows "extractUserChatId (Some (createSecureUserTag i s1)) s2 = None"
proof -
  have "match secure_at [] = None" by (simp add: regex_eval)
  from extract_first_signed_tag [OF assms(1) this, of s1 "[]" s2] assms(2)
  show ?thesis by simp
qed

text \<open>
  Two signatures, computed: without a secret the first 16 hexadecimal digits of
  SHA-256 of \<^verbatim>\<open>user:42:fallback\<close>, with the secret \<^verbatim>\<open>k\<close> those of HMAC-SHA-256 of \<^verbatim>\<open>user:42\<close>.
\<close>

lemma signature_42_unset: "generateUserIdSignature ''42'' [] = ''7d3d05a7e82eecb1''"
  by code_simp

lemma signature_42_k: "generateUserIdSignature ''42'' ''k'' = ''af3953965cc8ae61''"
  by code_simp

theorem extract_other_secret_witness:
  "is_id ''42'' \<and> generateUserIdSignature ''42'' [] \<noteq> generateUserIdSignature ''42'' ''k'' \<and>
   extractUserChatId (Some (createSecureUserTag ''42'' [])) ''k'' = None"
proof -
  have a: "is_id ''42''" by (simp add: regex_eval)
  have b: "generateUserIdSignature ''42'' [] \<noteq> generateUserIdSignature ''42'' ''k''"
    by (simp add: signature_42_unset signature_42_k)
  show ?thesis
    using a b extract_other_secret [OF a b] by simp
qed

text \<open>
  C3 as stated fails for distinct secrets that give the same HMAC key: a key shorter than
  the block is padded with zero bytes, so a secret and the same secret followed by a NUL
  character sign alike.
\<close>

theorem extract_other_secret_counterexample:
  "''k'' \<noteq> [CHR ''k'', CHR 0x00] \<and>
   extractUserChatId (Some (createSecureUserTag ''42'' ''k'')) [CHR ''k'', CHR 0x00] = Some ''42''"
proof -
  have a: "is_id ''42''" by (simp add: regex_eval)
  have b: "match secure_at [] = None" by (simp add: regex_eval)
  from extract_first_signed_tag [OF a b, of "''k''" "[]" "[CHR ''k'', CHR 0x00]"]
  show ?thesis by (simp add: signature_trailing_nul)
qed

text \<open>
  C4, as amended: let a text contain a legacy tag that is not followed by a colon or a word
  character. If the text has no match of the signed pattern and no legacy tag stands
  earlier in it, extract returns the identifier of that tag, whatever the secret. If the
  text has a match of the signed pattern, extract returns the identifier of the leftmost
  signed match when its signature verifies and null otherwise.
\<close>

theorem legacy_fallback:
  assumes "is_id d" and "\<not> colon_or_word_next post"
    and "t = pre @ ''[USER:'' @ d @ '']'' @ post"
  shows "(match secure_at t = None \<and> match legacy_at pre = None \<longrightarrow>
            extractUserChatId (Some t) s = Some d) \<and>
         (\<forall>u sg. match secure_at t = Some (u, sg) \<longrightarrow>
            extractUserChatId (Some t) s =
              (if verifyUserIdSignature u sg s then Some u else None))"
proof (intro conjI impI allI)
  assume h: "match secure_at t = None \<and> match legacy_at pre = None"
  have "match legacy_at t = Some d"
    unfolding assms(3) using h assms(1,2)
    by (intro match_legacy_first_tag) (simp_all add: is_id_def)
  moreover have "t \<noteq> []" using assms(3) by simp
  ultimately show "extractUserChatId (Some t) s = Some d"
    using h by (simp add: extractUserChatId_def)
next
  fix u sg
  assume "match secure_at t = Some (u, sg)"
  moreover have "t \<noteq> []" using assms(3) by simp
  ultimately show "extractUserChatId (Some t) s =
      (if verifyUserIdSignature u sg s then Some u else None)"
    by (simp add: extractUserChatId_def)
qed

theorem legacy_fallback_witness:
  "extractUserChatId (Some ''id [USER:42] end'') ''k'' = Some ''42'' \<and>
   extractUserChatId (Some (''[USER:42] '' @ createSecureUserTag ''7'' ''k'')) ''k'' = Some ''7''"
proof -
  have d: "is_id ''42''" by (simp add: regex_eval)
  have p: "\<not> colon_or_word_next '' end''" by (simp add: regex_eval)
  have t: "''id [USER:42] end'' = ''id '' @ ''[USER:'' @ ''42'' @ '']'' @ '' end''" by simp
  have n: "match secure_at ''id [USER:42] end'' = None \<and> match legacy_at ''id '' = None"
    by (simp add: regex_eval)
  have one: "extractUserChatId (Some ''id [USER:42] end'') ''k'' = Some ''42''"
    using legacy_fallback [OF d p t, of "''k''"] n by blast
  have p2: "\<not> colon_or_word_next ('' '' @ createSecureUserTag ''7'' ''k'')"
    by (simp add: regex_eval)
  have t2: "''[USER:42] '' @ createSecureUserTag ''7'' ''k''
      = [] @ ''[USER:'' @ ''42'' @ '']'' @ ('' '' @ createSecureUserTag ''7'' ''k'')" by simp
  have s7: "is_id ''7''" by (simp add: regex_eval)
  have "match secure_at ''[USER:42] '' = None" by (simp add: regex_eval)
  then have m: "match secure_at (''[USER:42] '' @ createSecureUserTag ''7'' ''k'')
      = Some (''7'', generateUserIdSignature ''7'' ''k'')"
    using match_secure_first_tag [of "''[USER:42] ''" "''7''" "generateUserIdSignature ''7'' ''k''" "[]"] s7
    by (simp add: createSecureUserTag_def is_id_def length_signature hex_signature)
  have two: "extractUserChatId (Some (''[USER:42] '' @ createSecureUserTag ''7'' ''k'')) ''k'' = Some ''7''"
    using legacy_fallback [OF d p2 t2, of "''k''"] m
    by (simp add: verifyUserIdSignature_def)
  show ?thesis using one two by simp
qed

text \<open>
  C4 as stated fails for the later of two legacy tags: the text has no signed pattern and
  contains the legacy tag of 42, followed by the end of the text, but extract returns 1.
\<close>

theorem legacy_fallback_counterexample:
  "match secure_at ''[USER:1] [USER:42]'' = None \<and>
   extractUserChatId (Some ''[USER:1] [USER:42]'') ''k'' \<noteq> Some ''42''"
  by (simp add: extractUserChatId_def regex_eval)

section \<open>Properties of the command parser\<close>

lemma split_not_Nil: "split sep s \<noteq> []"
  by (induction s) (auto split: list.splits)

lemma split_no_sep: "sep \<notin> set s \<Longrightarrow> split sep s = [s]"
  by (induction s) auto

lemma split_at_first_sep: "sep \<notin> set a \<Longrightarrow> split sep (a @ sep # b) = a # split sep b"
  by (induction a) auto

lemma join_split: "join sep (split sep s) = s"
proof (induction s)
  case Nil
  show ?case by simp
next
  case (Cons c cs)
  obtain p ps where ps: "split sep cs = p # ps"
    using split_not_Nil [of sep cs] by (cases "split sep cs") auto
  show ?case
    using Cons ps by (cases ps) auto
qed

lemma length_split_less_2: "length (split sep s) < 2 \<longleftrightarrow> sep \<notin> set s"
proof
  assume l: "length (split sep s) < 2"
  show "sep \<notin> set s"
  proof
    assume "sep \<in> set s"
    then obtain a b where "s = a @ sep # b" "sep \<notin> set a"
      by (meson split_list_first)
    then have "split sep s = a # split sep b"
      by (simp add: split_at_first_sep)
    with l split_not_Nil [of sep b] show False
      by (cases "split sep b") auto
  qed
next
  assume "sep \<notin> set s"
  then show "length (split sep s) < 2"
    by (simp add: split_no_sep)
qed

lemma parsePostTargets_token:
  assumes "CHR '' '' \<notin> set tok"
  shows "parsePostTargets (tok @ '' '' @ rest) =
    (if tok = ''all'' then (AllUsers, rest)
     else (Ids (filter is_id (map trim (split CHR '','' tok))), rest))"
proof -
  have parts: "split CHR '' '' (tok @ CHR '' '' # rest) = tok # split CHR '' '' rest"
    using assms by (rule split_at_first_sep)
  obtain p ps where ps: "split CHR '' '' rest = p # ps"
    using split_not_Nil [of "CHR '' ''" rest] by (cases "split CHR '' '' rest") auto
  have "join CHR '' '' (split CHR '' '' rest) = rest"
    by (rule join_split)
  then show ?thesis
    using parts ps by (simp add: parsePostTargets_def Let_def)
qed

text \<open>
  C6: parsePostTargets. A command text has fewer than two space-delimited segments exactly
  when it contains no space, and then the result is the empty target list with the empty
  payload. Otherwise the first token ends at the first space: the token \<open>all\<close> gives the
  sentinel, any other token is split on commas, every piece is trimmed and exactly the
  pieces of one or more decimal digits are kept; in both cases the payload is all that
  follows the first space, spaces included.
\<close>

theorem parsePostTargets_cases:
  "(length (split CHR '' '' t) < 2 \<longleftrightarrow> CHR '' '' \<notin> set t) \<and>
   (CHR '' '' \<notin> set t \<longrightarrow> parsePostTargets t = (Ids [], [])) \<and>
   parsePostTargets (''all'' @ '' '' @ rest) = (AllUsers, rest) \<and>
   (CHR '' '' \<notin> set tok \<and> tok \<noteq> ''all'' \<longrightarrow>
      parsePostTargets (tok @ '' '' @ rest) =
        (Ids (filter is_id (map trim (split CHR '','' tok))), rest))"
proof (intro conjI impI)
  show "length (split CHR '' '' t) < 2 \<longleftrightarrow> CHR '' '' \<notin> set t"
    by (rule length_split_less_2)
next
  assume "CHR '' '' \<notin> set t"
  then show "parsePostTargets t = (Ids [], [])"
    by (simp add: parsePostTargets_def split_no_sep)
next
  have "CHR '' '' \<notin> set ''all''" by simp
  from parsePostTargets_token [OF this, of rest]
  show "parsePostTargets (''all'' @ '' '' @ rest) = (AllUsers, rest)" by simp
next
  assume "CHR '' '' \<notin> set tok \<and> tok \<noteq> ''all''"
  then show "parsePostTargets (tok @ '' '' @ rest) =
        (Ids (filter is_id (map trim (split CHR '','' tok))), rest)"
    using parsePostTargets_token [of tok rest] by simp
qed

lemma trim_abc: "trim ''abc'' = ''abc''" by code_simp
lemma trim_123: "trim ''123'' = ''123''" by code_simp

theorem parsePostTargets_cases_witness:
  "parsePostTargets ''onlytargets'' = (Ids [], []) \<and>
   parsePostTargets ''all hello world'' = (AllUsers, ''hello world'') \<and>
   parsePostTargets ''abc,123 hi there'' = (Ids [''123''], ''hi there'')"
proof -
  have a: "CHR '' '' \<notin> set ''onlytargets''" by simp
  have b: "CHR '' '' \<notin> set ''abc,123'' \<and> ''abc,123'' \<noteq> ''all''" by simp
  have "parsePostTargets ''onlytargets'' = (Ids [], [])"
    using parsePostTargets_cases [where t = "''onlytargets''"] a by blast
  moreover have "parsePostTargets (''all'' @ '' '' @ ''hello world'') = (AllUsers, ''hello world'')"
    using parsePostTargets_cases [where rest = "''hello world''"] by blast
  moreover have "parsePostTargets (''abc,123'' @ '' '' @ ''hi there'') =
      (Ids (filter is_id (map trim (split CHR '','' ''abc,123''))), ''hi there'')"
    using parsePostTargets_cases [where tok = "''abc,123''" and rest = "''hi there''"] b by blast
  ultimately show ?thesis
    by (simp add: trim_abc trim_123 is_id_def is_digit_def)
qed

section \<open>Properties of the directory store\<close>

lemma addUserToKV_upsert:
  "USER_STORAGE e \<Longrightarrow>
     getUsersFromKV e (addUserToKV cid ui e orc w) = upsert cid ui (now orc) (getUsersFromKV e w)"
  by (simp add: addUserToKV_def getUsersFromKV_def upsert_def Let_def)

lemma addUserToKV_unbound:
  "\<not> USER_STORAGE e \<Longrightarrow> addUserToKV cid ui e orc w = w"
  by (simp add: addUserToKV_def)

lemma findIndex_Some: "findIndex p xs = Some i \<Longrightarrow> i < length xs \<and> p (xs ! i)"
  by (induction xs arbitrary: i) (auto split: if_splits option.splits)

lemma findIndex_None: "findIndex p xs = None \<Longrightarrow> \<forall>x\<in>set xs. \<not> p x"
  by (induction xs) (auto split: if_splits option.splits)

lemma findIndex_None_iff: "findIndex p xs = None \<longleftrightarrow> (\<forall>x\<in>set xs. \<not> p x)"
  by (induction xs) (auto split: if_splits option.splits)

lemma distinct_ids_sort: "distinct (map chatId (sort_by_recency xs)) = distinct (map chatId xs)"
proof -
  have "mset (map chatId (sort_by_recency xs)) = mset (map chatId xs)"
    by (simp add: sort_by_recency_def)
  then show ?thesis
    by (rule mset_eq_imp_distinct_iff)
qed

lemma length_upsert: "length (upsert cid ui t users) \<le> 1000"
  by (simp add: upsert_def Let_def)

lemma distinct_upsert:
  assumes "distinct (map chatId users)"
  shows "distinct (map chatId (upsert cid ui t users))"
proof -
  define userData where "userData = \<lparr>chatId = cid, userName = ui_userName ui,
                       userId = ui_userId ui, lastActive = t\<rparr>"
  define users1 where "users1 = (case findIndex (\<lambda>u. chatId u = cid) users of
                      Some i \<Rightarrow> users[i := userData]
                    | None \<Rightarrow> users @ [userData])"
  have d1: "distinct (map chatId users1)"
  proof (cases "findIndex (\<lambda>u. chatId u = cid) users")
    case None
    then have "cid \<notin> chatId ` set users"
      using findIndex_None [OF None] by auto
    then show ?thesis
      using assms None by (simp add: users1_def userData_def)
  next
    case (Some i)
    then have "i < length users" "chatId (users ! i) = cid"
      using findIndex_Some [OF Some] by auto
    then have "map chatId (users[i := userData]) = map chatId users"
      by (simp add: map_update userData_def list_update_same_conv)
    then show ?thesis
      using assms Some by (simp add: users1_def)
  qed
  have "distinct (map chatId (take 1000 (sort_by_recency users1)))"
    using d1 by (simp add: take_map [symmetric] distinct_ids_sort)
  then show ?thesis
    using d1 unfolding upsert_def Let_def userData_def [symmetric] users1_def [symmetric]
    by simp
qed

lemma sorted_by_recency:
  "i \<le> j \<Longrightarrow> j < length xs \<Longrightarrow>
     lastActive (sort_by_recency xs ! j) \<le> lastActive (sort_by_recency xs ! i)"
proof -
  assume ij: "i \<le> j" "j < length xs"
  have "sorted (map (\<lambda>u. - lastActive u) (sort_by_recency xs))"
    by (simp add: sort_by_recency_def)
  then have "map (\<lambda>u. - lastActive u) (sort_by_recency xs) ! i
      \<le> map (\<lambda>u. - lastActive u) (sort_by_recency xs) ! j"
    using ij by (intro sorted_nth_mono) (simp_all add: sort_by_recency_def)
  then show ?thesis
    using ij by (simp add: sort_by_recency_def)
qed

lemma upsert_evicts:
  fixes ui :: user_info and t :: int
  assumes len: "length users = 1000" and new: "cid \<notin> chatId ` set users"
  defines "userData \<equiv> \<lparr>chatId = cid, userName = ui_userName ui,
                       userId = ui_userId ui, lastActive = t\<rparr>"
  defines "evicted \<equiv> sort_by_recency (users @ [userData]) ! 1000"
  shows "upsert cid ui t users = take 1000 (sort_by_recency (users @ [userData]))"
    and "length (upsert cid ui t users) = 1000"
    and "mset (upsert cid ui t users) + {#evicted#} = mset users + {#userData#}"
    and "\<forall>r \<in> set (users @ [userData]). lastActive evicted \<le> lastActive r"
proof -
  let ?s = "sort_by_recency (users @ [userData])"
  have none: "findIndex (\<lambda>u. chatId u = cid) users = None"
    using new by (auto simp: findIndex_None_iff)
  show up: "upsert cid ui t users = take 1000 ?s"
    using none len by (simp add: upsert_def userData_def)
  have ls: "length ?s = 1001"
    using len by (simp add: sort_by_recency_def)
  then show "length (upsert cid ui t users) = 1000"
    using up by simp
  have "?s = take 1000 ?s @ [?s ! 1000]"
    using ls take_Suc_conv_app_nth [of 1000 ?s] by simp
  then have "mset ?s = mset (take 1000 ?s @ [evicted])"
    unfolding evicted_def by simp
  then have "mset ?s = mset (take 1000 ?s) + {#evicted#}"
    by simp
  moreover have "mset ?s = mset users + {#userData#}"
    by (simp add: sort_by_recency_def)
  ultimately show "mset (upsert cid ui t users) + {#evicted#} = mset users + {#userData#}"
    using up by simp
  show "\<forall>r \<in> set (users @ [userData]). lastActive evicted \<le> lastActive r"
  proof
    fix r assume "r \<in> set (users @ [userData])"
    then have "r \<in> set ?s" by (simp add: sort_by_recency_def)
    then obtain i where i: "i < length ?s" "?s ! i = r"
      by (auto simp: in_set_conv_nth)
    then have "i \<le> 1000" using ls by simp
    from sorted_by_recency [OF this, of "users @ [userData]"] i(2) len
    show "lastActive evicted \<le> lastActive r"
      by (simp add: evicted_def)
  qed
qed


lemma distinct_addUserToKV:
  "distinct (map chatId (getUsersFromKV e w)) \<Longrightarrow>
     distinct (map chatId (getUsersFromKV e (addUserToKV cid ui e orc w)))"
  by (cases "USER_STORAGE e") (simp_all add: addUserToKV_upsert distinct_upsert addUserToKV_unbound)

lemma distinct_upserts:
  "distinct (map chatId (getUsersFromKV e w)) \<Longrightarrow>
     distinct (map chatId (getUsersFromKV e (upserts ops e w)))"
proof (induction ops arbitrary: w)
  case Nil
  then show ?case by simp
next
  case (Cons op ops)
  obtain cid ui orc where op: "op = (cid, ui, orc)"
    by (cases op)
  show ?case
    unfolding op upserts.simps
    by (rule Cons.IH) (rule distinct_addUserToKV [OF Cons.prems])
qed

text \<open>
  C8, as amended: after every upsert the stored list has at most 1000 records; a list with
  at most one record per conversation identifier, the empty directory for one, still has
  at most one record per identifier after any run of upserts. Upserting a new identifier
  into a list of exactly 1000 records sorts the 1001 records by recency and evicts exactly
  one record, the last in that order; exactly 1000 records are left, and no record, kept
  or new, was less recently active than the evicted one.
\<close>

theorem directory_cap:
  "length (getUsersFromKV e (addUserToKV cid ui e orc w)) \<le> 1000 \<and>
   (distinct (map chatId (getUsersFromKV e w)) \<longrightarrow>
      distinct (map chatId (getUsersFromKV e (upserts ops e w)))) \<and>
   (USER_STORAGE e \<and> kv w = UserList users \<and> length users = 1000 \<and> cid \<notin> chatId ` set users \<longrightarrow>
      (let added = users @ [\<lparr>chatId = cid, userName = ui_userName ui, userId = ui_userId ui,
                              lastActive = now orc\<rparr>];
           kept = getUsersFromKV e (addUserToKV cid ui e orc w);
           evicted = sort_by_recency added ! 1000
       in kept = take 1000 (sort_by_recency added) \<and> length kept = 1000 \<and>
          mset kept + {#evicted#} = mset added \<and>
          (\<forall>r \<in> set added. lastActive evicted \<le> lastActive r)))"
proof (intro conjI impI)
  show "length (getUsersFromKV e (addUserToKV cid ui e orc w)) \<le> 1000"
  proof (cases "USER_STORAGE e")
    case True
    then show ?thesis by (simp add: addUserToKV_upsert length_upsert)
  next
    case False
    then show ?thesis by (simp add: getUsersFromKV_def)
  qed
next
  assume "distinct (map chatId (getUsersFromKV e w))"
  then show "distinct (map chatId (getUsersFromKV e (upserts ops e w)))"
    by (rule distinct_upserts)
next
  assume h: "USER_STORAGE e \<and> kv w = UserList users \<and> length users = 1000 \<and> cid \<notin> chatId ` set users"
  then have g: "getUsersFromKV e w = users"
    by (simp add: getUsersFromKV_def)
  from h have len: "length users = 1000" and new: "cid \<notin> chatId ` set users"
    by simp_all
  show "let added = users @ [\<lparr>chatId = cid, userName = ui_userName ui, userId = ui_userId ui,
                              lastActive = now orc\<rparr>];
           kept = getUsersFromKV e (addUserToKV cid ui e orc w);
           evicted = sort_by_recency added ! 1000
       in kept = take 1000 (sort_by_recency added) \<and> length kept = 1000 \<and>
          mset kept + {#evicted#} = mset added \<and>
          (\<forall>r \<in> set added. lastActive evicted \<le> lastActive r)"
    unfolding Let_def
    using upsert_evicts [OF len new, of ui "now orc"] h g
    by (simp add: addUserToKV_upsert)
qed

lemma length_full_directory: "length full_directory = 1000"
  by (simp add: full_directory_def)

lemma ids_full_directory: "map chatId full_directory = map int [0..<1000]"
  by (simp add: full_directory_def)

lemma distinct_full_directory: "distinct (map chatId full_directory)"
  unfolding ids_full_directory by (simp add: distinct_map)

lemma newcomer_not_in_full_directory: "1000 \<notin> chatId ` set full_directory"
proof -
  have "chatId ` set full_directory = set (map chatId full_directory)" by simp
  also have "\<dots> = int ` {0..<1000}" unfolding ids_full_directory by simp
  finally show ?thesis by auto
qed

theorem directory_cap_witness:
  "USER_STORAGE sample_env \<and> length full_directory = 1000 \<and>
   distinct (map chatId full_directory) \<and> 1000 \<notin> chatId ` set full_directory \<and>
   length (getUsersFromKV sample_env
     (addUserToKV 1000 newcomer sample_env quiet \<lparr>kv = UserList full_directory, trace = []\<rparr>)) = 1000 \<and>
   distinct (map chatId (getUsersFromKV sample_env
     (addUserToKV 1000 newcomer sample_env quiet \<lparr>kv = UserList full_directory, trace = []\<rparr>)))"
proof -
  let ?w = "\<lparr>kv = UserList full_directory, trace = []\<rparr>"
  have s: "USER_STORAGE sample_env" by (simp add: sample_env_def)
  have k: "kv ?w = UserList full_directory" by simp
  have g: "getUsersFromKV sample_env ?w = full_directory"
    by (simp add: getUsersFromKV_def sample_env_def)
  note cap = directory_cap [where e = sample_env and cid = 1000 and ui = newcomer and orc = quiet
      and w = ?w and users = full_directory and ops = "[(1000, newcomer, quiet)]",
      unfolded Let_def]
  have "distinct (map chatId (getUsersFromKV sample_env ?w))"
    unfolding g by (rule distinct_full_directory)
  with cap have "distinct (map chatId (getUsersFromKV sample_env
     (upserts [(1000, newcomer, quiet)] sample_env ?w)))"
    by blast
  then have d: "distinct (map chatId (getUsersFromKV sample_env
     (addUserToKV 1000 newcomer sample_env quiet ?w)))"
    by simp
  have "USER_STORAGE sample_env \<and> kv ?w = UserList full_directory \<and>
      length full_directory = 1000 \<and> 1000 \<notin> chatId ` set full_directory"
    using s k length_full_directory newcomer_not_in_full_directory by blast
  with cap have l: "length (getUsersFromKV sample_env
     (addUserToKV 1000 newcomer sample_env quiet ?w)) = 1000"
    by blast
  show ?thesis
    using s length_full_directory distinct_full_directory newcomer_not_in_full_directory d l
    by blast
qed

lemma sort_key_append_least:
  assumes "\<forall>y \<in> set xs. f x < f y"
  shows "sort_key f (xs @ [x]) = x # sort_key f xs"
  using assms by (induction xs) (auto simp: insort_is_Cons)

lemma sorted_map_upt:
  assumes "\<And>i j. i \<le> j \<Longrightarrow> j < n \<Longrightarrow> h i \<le> h j"
  shows "sorted (map h [0..<n])"
  using assms by (auto simp: sorted_iff_nth_mono)

lemma sort_full_directory_plus:
  "sort_by_recency (full_directory @
      [\<lparr>chatId = 1000, userName = ''new'', userId = 1000, lastActive = 1700000005000\<rparr>])
   = \<lparr>chatId = 1000, userName = ''new'', userId = 1000, lastActive = 1700000005000\<rparr> # full_directory"
proof -
  let ?f = "\<lambda>u. - lastActive u"
  let ?new = "\<lparr>chatId = 1000, userName = ''new'', userId = 1000, lastActive = 1700000005000\<rparr>"
  have "\<forall>y \<in> set full_directory. ?f ?new < ?f y"
    by (auto simp: full_directory_def)
  then have "sort_key ?f (full_directory @ [?new]) = ?new # sort_key ?f full_directory"
    by (rule sort_key_append_least)
  moreover have "sorted (map ?f full_directory)"
    unfolding full_directory_def map_map by (rule sorted_map_upt) auto
  then have "sort_key ?f full_directory = full_directory"
    by (rule sort_key_id_if_sorted)
  ultimately show ?thesis
    by (simp add: sort_by_recency_def)
qed

lemma kept_full_directory:
  "getUsersFromKV sample_env
     (addUserToKV 1000 newcomer sample_env quiet \<lparr>kv = UserList full_directory, trace = []\<rparr>)
   = \<lparr>chatId = 1000, userName = ''new'', userId = 1000, lastActive = 1700000005000\<rparr>
       # take 999 full_directory"
proof -
  have "findIndex (\<lambda>u. chatId u = 1000) full_directory = None"
    using newcomer_not_in_full_directory by (auto simp: findIndex_None_iff)
  then have "upsert 1000 newcomer 1700000005000 full_directory
      = \<lparr>chatId = 1000, userName = ''new'', userId = 1000, lastActive = 1700000005000\<rparr>
          # take 999 full_directory"
    using sort_full_directory_plus length_full_directory
    by (simp add: upsert_def newcomer_def Let_def)
  moreover have "USER_STORAGE sample_env" "now quiet = 1700000005000"
    by (simp_all add: sample_env_def quiet_def)
  moreover have "getUsersFromKV sample_env \<lparr>kv = UserList full_directory, trace = []\<rparr>
      = full_directory"
    by (simp add: getUsersFromKV_def sample_env_def)
  ultimately show ?thesis
    by (simp only: addUserToKV_upsert)
qed

text \<open>
  C8 as stated fails when time stamps tie: the directory holds 1000 records, the two least
  recently active with the same time stamp. Upserting identifier 1000 evicts record 999;
  record 998 stays, and it is not more recently active than the evicted record.
\<close>

theorem directory_cap_counterexample:
  "length (getUsersFromKV sample_env
     (addUserToKV 1000 newcomer sample_env quiet \<lparr>kv = UserList full_directory, trace = []\<rparr>)) = 1000 \<and>
   full_directory ! 999 \<notin> set (getUsersFromKV sample_env
     (addUserToKV 1000 newcomer sample_env quiet \<lparr>kv = UserList full_directory, trace = []\<rparr>)) \<and>
   full_directory ! 998 \<in> set (getUsersFromKV sample_env
     (addUserToKV 1000 newcomer sample_env quiet \<lparr>kv = UserList full_directory, trace = []\<rparr>)) \<and>
   lastActive (full_directory ! 998) = lastActive (full_directory ! 999)"
proof -
  have a: "full_directory ! 998 \<in> set (take 999 full_directory)"
    using length_full_directory by (auto simp: in_set_conv_nth intro!: exI [of _ 998])
  have "chatId (full_directory ! 999) \<notin> chatId ` set (take 999 full_directory)"
    by (auto simp: full_directory_def take_map)
  then have b: "full_directory ! 999 \<notin> set (take 999 full_directory)"
    by blast
  have c: "chatId (full_directory ! 999) = 999" "lastActive (full_directory ! 998) = lastActive (full_directory ! 999)"
    by (simp_all add: full_directory_def)
  show ?thesis
    unfolding kept_full_directory using a b c length_full_directory by auto
qed

section \<open>Properties of the broadcast fan-out\<close>

lemma returned_append: "returned (xs @ ys) = returned xs + returned ys"
  by (induction xs rule: returned.induct) simp_all

lemma failures_append: "failures (xs @ ys) = failures xs @ failures ys"
  by (induction xs rule: failures.induct) simp_all

lemma delays_append: "delays (xs @ ys) = delays xs + delays ys"
  by (induction xs rule: delays.induct) simp_all

lemma settled_calls_append: "settled_calls (xs @ ys) = settled_calls xs @ settled_calls ys"
  by (induction xs rule: settled_calls.induct) simp_all

lemma issued_no_counts:
  "returned (map Issued cs) = 0" "failures (map Issued cs) = []" "delays (map Issued cs) = 0"
  by (induction cs) simp_all

lemma settled_returned_failures:
  "list_all is_Settled evs \<Longrightarrow> returned evs + length (failures evs) = length evs"
  by (induction evs rule: failures.induct) simp_all

lemma settled_delays: "list_all is_Settled evs \<Longrightarrow> delays evs = 0"
  by (induction evs rule: delays.induct) simp_all

lemma length_settled_calls: "list_all is_Settled evs \<Longrightarrow> length (settled_calls evs) = length evs"
  by (induction evs rule: settled_calls.induct) simp_all

lemma issue_all_effects:
  "issue_all orc cs w = (ps, w1) \<Longrightarrow>
     map (\<lambda>(chat, c, r). (chat, c)) ps = cs \<and>
     trace w1 = trace w @ map (\<lambda>(chat, c). Issued c) cs \<and> kv w1 = kv w"
proof (induction cs arbitrary: w ps w1)
  case Nil
  then show ?case by simp
next
  case (Cons a cs)
  obtain chat c where a: "a = (chat, c)" by (cases a)
  obtain ps' w' where rec: "issue_all orc cs (w\<lparr>trace := trace w @ [Issued c]\<rparr>) = (ps', w')"
    by (cases "issue_all orc cs (w\<lparr>trace := trace w @ [Issued c]\<rparr>)")
  from Cons.prems have ps: "ps = (chat, c, transport orc (length (trace w)) c) # ps'" and w1: "w1 = w'"
    by (simp_all add: a rec Let_def)
  from Cons.IH [OF rec] show ?case
    by (simp add: a ps w1)
qed

lemma mset_remove_nth: "k < length xs \<Longrightarrow> mset (remove_nth k xs) + {#xs ! k#} = mset xs"
proof -
  assume "k < length xs"
  then have "xs = take k xs @ xs ! k # drop (Suc k) xs"
    by (rule id_take_nth_drop)
  then have "mset xs = mset (take k xs @ xs ! k # drop (Suc k) xs)"
    by simp
  then show ?thesis
    by (simp add: remove_nth_def)
qed

lemma mset_map_remove_nth:
  assumes "k < length xs"
  shows "mset (map f (remove_nth k xs)) + {#f (xs ! k)#} = mset (map f xs)"
proof -
  have "map f (remove_nth k xs) = remove_nth k (map f xs)"
    by (simp add: remove_nth_def take_map drop_map)
  then show ?thesis
    using mset_remove_nth [of k "map f xs"] assms by simp
qed

lemma set_remove_nth: "set (remove_nth k xs) \<subseteq> set xs"
  by (auto simp: remove_nth_def dest: in_set_takeD in_set_dropD)

lemma tally_counts:
  "success (tally res chat r) = success res + returned [Settled c r]"
  "failed (tally res chat r) = failed res + length (failures [Settled c r])"
  by (cases r; simp add: tally_def)+

lemma tally_errors:
  "target c = chat \<Longrightarrow> errors (tally res chat r) = errors res @ failures [Settled c r]"
  by (cases r) (simp_all add: tally_def)

lemma settle_all_effects:
  "settle_all orc ps res w = (res', w') \<Longrightarrow>
   (\<forall>(chat, c, r) \<in> set ps. target c = chat) \<Longrightarrow>
     \<exists>evs. trace w' = trace w @ evs \<and> kv w' = kv w \<and>
       list_all is_Settled evs \<and>
       mset (settled_calls evs) = mset (map (\<lambda>(chat, c, r). c) ps) \<and>
       success res' = success res + returned evs \<and>
       failed res' = failed res + length (failures evs) \<and>
       errors res' = errors res @ failures evs"
proof (induction orc ps res w arbitrary: res' w' rule: settle_all.induct)
  case (1 orc ps res w)
  show ?case
  proof (cases "ps = []")
    case True
    with "1.prems"(1) have "res' = res" "w' = w"
      by (simp_all add: settle_all.simps)
    then show ?thesis
      using True by (intro exI [of _ "[]"]) simp
  next
    case False
    define k where "k = settle_choice orc (length (trace w)) mod length ps"
    define chat where "chat = fst (ps ! k)"
    define c where "c = fst (snd (ps ! k))"
    define r where "r = snd (snd (ps ! k))"
    have k: "k < length ps"
      using False by (simp add: k_def)
    have pk: "ps ! k = (chat, c, r)"
      by (simp add: chat_def c_def r_def)
    have tc: "target c = chat"
      using "1.prems"(2) k pk nth_mem [OF k] by fastforce
    have step: "settle_all orc (remove_nth k ps) (tally res chat r)
        (w\<lparr>trace := trace w @ [Settled c r]\<rparr>) = (res', w')"
      using "1.prems"(1) False
      by (subst (asm) settle_all.simps) (simp add: Let_def k_def chat_def c_def r_def)
    have sub: "\<forall>(chat, c, r) \<in> set (remove_nth k ps). target c = chat"
      using "1.prems"(2) set_remove_nth [of k ps] by blast
    from "1.IH" [OF False k_def chat_def c_def r_def step sub]
    obtain evs where evs: "trace w' = trace (w\<lparr>trace := trace w @ [Settled c r]\<rparr>) @ evs"
      "kv w' = kv (w\<lparr>trace := trace w @ [Settled c r]\<rparr>)"
      "list_all is_Settled evs"
      "mset (settled_calls evs) = mset (map (\<lambda>(chat, c, r). c) (remove_nth k ps))"
      "success res' = success (tally res chat r) + returned evs"
      "failed res' = failed (tally res chat r) + length (failures evs)"
      "errors res' = errors (tally res chat r) @ failures evs"
      by blast
    have "mset (map (\<lambda>(chat, c, r). c) (remove_nth k ps)) + {#(\<lambda>(chat, c, r). c) (ps ! k)#}
        = mset (map (\<lambda>(chat, c, r). c) ps)"
      using k by (rule mset_map_remove_nth)
    then have m: "mset (settled_calls (Settled c r # evs)) = mset (map (\<lambda>(chat, c, r). c) ps)"
      using evs(4) pk by simp
    have r1: "returned (Settled c r # evs) = returned [Settled c r] + returned evs"
      using returned_append [of "[Settled c r]" evs] by simp
    have f1: "failures (Settled c r # evs) = failures [Settled c r] @ failures evs"
      using failures_append [of "[Settled c r]" evs] by simp
    have "trace w' = trace w @ Settled c r # evs" "kv w' = kv w"
      "list_all is_Settled (Settled c r # evs)"
      using evs(1,2,3) by simp_all
    moreover have "success res' = success res + returned (Settled c r # evs)"
      unfolding r1 evs(5) tally_counts(1) [of res chat r c] by simp
    moreover have "failed res' = failed res + length (failures (Settled c r # evs))"
      unfolding f1 evs(6) tally_counts(2) [of res chat r c] by simp
    moreover have "errors res' = errors res @ failures (Settled c r # evs)"
      unfolding f1 evs(7) tally_errors [OF tc, of res r] by simp
    ultimately show ?thesis
      using m by blast
  qed
qed

lemma chunks_step: "xs \<noteq> [] \<Longrightarrow> 0 < n \<Longrightarrow> chunks n xs = take n xs # chunks n (drop n xs)"
  by (cases xs) (simp_all add: drop_Cons')

lemma chunks_map: "chunks n (map f xs) = map (map f) (chunks n xs)"
  by (induction n xs rule: chunks.induct) (simp_all add: take_Cons' take_map drop_map)

lemma concat_chunks: "0 < n \<Longrightarrow> concat (chunks n xs) = xs"
proof (induction n xs rule: chunks.induct)
  case (1 n)
  show ?case by simp
next
  case (2 n x xs)
  then obtain m where n: "n = Suc m" by (cases n) auto
  from 2 show ?case by (simp add: n)
qed

lemma chunks_bounds: "0 < n \<Longrightarrow> b \<in> set (chunks n xs) \<Longrightarrow> b \<noteq> [] \<and> length b \<le> n"
proof (induction n xs rule: chunks.induct)
  case (1 n)
  then show ?case by simp
next
  case (2 n x xs)
  then obtain m where n: "n = Suc m" by (cases n) auto
  from 2 show ?case by (auto simp: n)
qed

lemma length_chunks_10: "length (chunks 10 xs) = (length xs + 9) div 10"
proof (induction "10::nat" xs rule: chunks.induct)
  case 1
  show ?case by simp
next
  case (2 x xs)
  then have "length (chunks 10 (x # xs)) = Suc ((length xs - 9 + 9) div 10)"
    by simp
  also have "\<dots> = (length (x # xs) + 9) div 10"
    by (cases "9 \<le> length xs") simp_all
  finally show ?case .
qed

lemma chunks_eq_Nil: "chunks n xs = [] \<longleftrightarrow> xs = []"
  by (cases xs) simp_all

lemma loop_effects:
  assumes mk: "\<And>chat. target (mk chat) = chat"
  shows "broadcast_loop orc mk i targetUserIds res w = (res', w') \<Longrightarrow>
     \<exists>evs. trace w' = trace w @ evs \<and> kv w' = kv w \<and>
       batched (chunks 10 (map mk (drop i targetUserIds))) evs \<and>
       success res' = success res + returned evs \<and>
       failed res' = failed res + length (failures evs) \<and>
       errors res' = errors res @ failures evs"
proof (induction "length targetUserIds - i" arbitrary: i res w rule: less_induct)
  case less
  show ?case
  proof (cases "i < length targetUserIds")
    case False
    with less.prems have "res' = res" "w' = w"
      by (subst (asm) broadcast_loop.simps; simp)+
    then show ?thesis
      using False by (intro exI [of _ "[]"]) simp
  next
    case True
    define batch where "batch = take 10 (drop i targetUserIds)"
    define more where "more = (i + 10 < length targetUserIds)"
    obtain ps w1 where issue: "issue_all orc (map (\<lambda>chat. (chat, mk chat)) batch) w = (ps, w1)"
      by (cases "issue_all orc (map (\<lambda>chat. (chat, mk chat)) batch) w")
    obtain res1 w2 where settle: "settle_all orc ps res w1 = (res1, w2)"
      by (cases "settle_all orc ps res w1")
    define w3 where "w3 = (if more then w2\<lparr>trace := trace w2 @ [Delay 100]\<rparr> else w2)"
    have step: "broadcast_loop orc mk (i + 10) targetUserIds res1 w3 = (res', w')"
      using less.prems True
      by (subst (asm) broadcast_loop.simps)
        (simp add: Let_def batchSize_def batch_def [symmetric] issue settle w3_def more_def)
    have smaller: "length targetUserIds - (i + 10) < length targetUserIds - i"
      using True by simp
    from less.hyps [OF smaller step]
    obtain evr where evr: "trace w' = trace w3 @ evr" "kv w' = kv w3"
      "batched (chunks 10 (map mk (drop (i + 10) targetUserIds))) evr"
      "success res' = success res1 + returned evr"
      "failed res' = failed res1 + length (failures evr)"
      "errors res' = errors res1 @ failures evr"
      by blast
    from issue_all_effects [OF issue]
    have proj: "map (\<lambda>(chat, c, r). (chat, c)) ps = map (\<lambda>chat. (chat, mk chat)) batch"
      and t1: "trace w1 = trace w @ map Issued (map mk batch)" and k1: "kv w1 = kv w"
      by (simp_all add: comp_def)
    have calls: "map (\<lambda>(chat, c, r). c) ps = map mk batch"
    proof -
      have "map (\<lambda>(chat, c, r). c) ps = map snd (map (\<lambda>(chat, c, r). (chat, c)) ps)"
        by (simp add: comp_def case_prod_unfold)
      then show ?thesis
        unfolding proj by (simp add: comp_def)
    qed
    have cons: "\<forall>(chat, c, r) \<in> set ps. target c = chat"
    proof -
      have "\<forall>p \<in> set (map (\<lambda>(chat, c, r). (chat, c)) ps). target (snd p) = fst p"
        unfolding proj using mk by simp
      then show ?thesis by auto
    qed
    from settle_all_effects [OF settle cons]
    obtain evs where evs: "trace w2 = trace w1 @ evs" "kv w2 = kv w1"
      "list_all is_Settled evs"
      "mset (settled_calls evs) = mset (map mk batch)"
      "success res1 = success res + returned evs"
      "failed res1 = failed res + length (failures evs)"
      "errors res1 = errors res @ failures evs"
      unfolding calls by blast
    have len: "length evs = length batch"
    proof -
      have "length (settled_calls evs) = length (map mk batch)"
        using evs(4) by (rule mset_eq_length)
      then show ?thesis
        using length_settled_calls [OF evs(3)] by simp
    qed
    define pause where "pause = (if more then [Delay 100] else [])"
    define all where "all = map Issued (map mk batch) @ evs @ pause @ evr"
    have t3: "trace w3 = trace w2 @ pause" "kv w3 = kv w2"
      by (simp_all add: w3_def pause_def)
    have trace: "trace w' = trace w @ all" and kv: "kv w' = kv w"
      using evr(1,2) t3 evs(1,2) t1 k1 by (simp_all add: all_def)
    have counts: "returned all = returned evs + returned evr"
      "failures all = failures evs @ failures evr"
      using issued_no_counts [of "map mk batch"]
      by (simp_all add: all_def returned_append failures_append pause_def del: map_map)
    have nonempty: "drop i targetUserIds \<noteq> []"
      using True by simp
    have chunks: "chunks 10 (map mk (drop i targetUserIds)) =
        map mk batch # chunks 10 (map mk (drop (i + 10) targetUserIds))"
      using chunks_step [of "map mk (drop i targetUserIds)" 10] nonempty
      by (simp add: batch_def take_map drop_map add.commute)
    have rest_empty: "chunks 10 (map mk (drop (i + 10) targetUserIds)) = [] \<longleftrightarrow> \<not> more"
      by (auto simp: chunks_eq_Nil more_def)
    have parts: "take (length batch) all = map Issued (map mk batch)"
      "take (length batch) (drop (length batch) all) = evs"
      "drop (2 * length batch) all = pause @ evr"
      using len by (simp_all add: all_def)
    have "batched (map mk batch # chunks 10 (map mk (drop (i + 10) targetUserIds))) all"
    proof (cases more)
      case True
      then show ?thesis
        unfolding batched.simps Let_def length_map parts
        using len evs(3,4) evr(3) rest_empty
        by (simp add: pause_def)
    next
      case False
      then have "evr = []"
        using evr(3) rest_empty by simp
      then show ?thesis
        unfolding batched.simps Let_def length_map parts
        using len evs(3,4) rest_empty False
        by (simp add: pause_def)
    qed
    then have "batched (chunks 10 (map mk (drop i targetUserIds))) all"
      unfolding chunks .
    moreover have "success res' = success res + returned all"
      "failed res' = failed res + length (failures all)"
      "errors res' = errors res @ failures all"
      using evr(4,5,6) evs(5,6,7) counts by simp_all
    ultimately show ?thesis
      using trace kv by blast
  qed
qed

lemma target_broadcast_call: "target (broadcast_call e isMedia messageId msg chat) = chat"
  by (simp add: broadcast_call_def target_def)

lemma split_events:
  "evs = take n evs @ take n (drop n evs) @ drop (2 * n) evs"
proof -
  have "take n (drop n evs) @ drop (2 * n) evs = drop n evs"
    using append_take_drop_id [of n "drop n evs"] by (simp add: mult_2)
  then show ?thesis
    by simp
qed

lemma batched_counts:
  "batched bs evs \<Longrightarrow>
     returned evs + length (failures evs) = length (concat bs) \<and> delays evs = length bs - 1"
proof (induction bs arbitrary: evs)
  case Nil
  then show ?case by simp
next
  case (Cons b bs)
  define s where "s = take (length b) (drop (length b) evs)"
  define rest where "rest = drop (2 * length b) evs"
  from Cons.prems have i: "take (length b) evs = map Issued b"
    and s: "length s = length b" "list_all is_Settled s"
    and r: "if bs = [] then rest = []
            else (case rest of Delay d # rest' \<Rightarrow> d = 100 \<and> batched bs rest' | _ \<Rightarrow> False)"
    by (simp_all add: Let_def s_def rest_def)
  have evs: "evs = map Issued b @ s @ rest"
    using split_events [of evs "length b"] i by (simp add: s_def rest_def)
  have cs: "returned s + length (failures s) = length b" "delays s = 0"
    using settled_returned_failures [OF s(2)] settled_delays [OF s(2)] s(1) by simp_all
  have "returned evs = returned s + returned rest"
    "failures evs = failures s @ failures rest"
    "delays evs = delays s + delays rest"
    using issued_no_counts [of b]
    by (subst evs; simp add: returned_append failures_append delays_append)+
  then have tot: "returned evs + length (failures evs) = length b + (returned rest + length (failures rest))"
    "delays evs = delays rest"
    using cs by simp_all
  show ?case
  proof (cases "bs = []")
    case True
    with r have "rest = []" by simp
    then show ?thesis
      using tot True by simp
  next
    case False
    with r obtain rest' where rest: "rest = Delay 100 # rest'" and b: "batched bs rest'"
      by (auto split: list.splits event.splits)
    from Cons.IH [OF b] have "returned rest' + length (failures rest') = length (concat bs)"
      "delays rest' = length bs - 1"
      by simp_all
    moreover have "0 < length bs" using False by simp
    ultimately show ?thesis
      using tot rest by simp
  qed
qed

lemma broadcastMessage_loop:
  assumes "targetUserIds = (case ids of
             AllUsers \<Rightarrow> map (\<lambda>u. NumId (chatId u)) (getUsersFromKV e w)
           | Ids l \<Rightarrow> map StrId l)"
    and "targetUserIds \<noteq> []"
    and "broadcastMessage ids msg e isMedia messageId orc w = (r, w')"
  shows "\<exists>evs. trace w' = trace w @ evs \<and> kv w' = kv w \<and>
           batched (chunks 10 (map (broadcast_call e isMedia messageId msg) targetUserIds)) evs \<and>
           success r = returned evs \<and> failed r = length (failures evs) \<and>
           errors r = failures evs"
proof -
  have "broadcast_loop orc (broadcast_call e isMedia messageId msg) 0 targetUserIds
      \<lparr>success = 0, failed = 0, errors = []\<rparr> w = (r, w')"
    using assms by (simp add: broadcastMessage_def Let_def)
  from loop_effects [OF target_broadcast_call this] show ?thesis
    by simp
qed

text \<open>
  C7: for every non-empty explicit list of \<open>n\<close> identifiers, broadcastMessage works through
  \<open>(n + 9) div 10\<close> batches, each of at least one and at most 10 requests, which together
  are the requests for the identifiers in order. The trace it adds is batched along them:
  every request of a batch settles before a request of the next batch is issued, and a
  delay follows every batch but the last. Whatever the outcomes and the order of settling,
  the returned counts satisfy \<open>success + failed = n\<close>.
\<close>

theorem broadcast_batches:
  assumes "l \<noteq> []"
  shows "(let calls = map (\<lambda>i. broadcast_call e isMedia messageId msg (StrId i)) l;
              batches = chunks batchSize calls;
              (r, w') = broadcastMessage (Ids l) msg e isMedia messageId orc w
          in length batches = (length l + 9) div 10 \<and>
             (\<forall>b \<in> set batches. b \<noteq> [] \<and> length b \<le> 10) \<and>
             concat batches = calls \<and>
             (\<exists>evs. trace w' = trace w @ evs \<and> batched batches evs \<and>
                    delays evs = length batches - 1) \<and>
             success r + failed r = length l)"
proof -
  define calls where "calls = map (\<lambda>i. broadcast_call e isMedia messageId msg (StrId i)) l"
  obtain r w' where run: "broadcastMessage (Ids l) msg e isMedia messageId orc w = (r, w')"
    by (cases "broadcastMessage (Ids l) msg e isMedia messageId orc w")
  have c: "map (broadcast_call e isMedia messageId msg) (map StrId l) = calls"
    by (simp add: calls_def comp_def)
  from broadcastMessage_loop [OF _ _ run, of "map StrId l"] assms
  obtain evs where evs: "trace w' = trace w @ evs" "batched (chunks 10 calls) evs"
    "success r = returned evs" "failed r = length (failures evs)"
    unfolding c by auto
  note n = batched_counts [OF evs(2)]
  have "length (chunks 10 calls) = (length l + 9) div 10"
    by (simp add: length_chunks_10 calls_def)
  moreover have "\<forall>b \<in> set (chunks 10 calls). b \<noteq> [] \<and> length b \<le> 10"
    using chunks_bounds [of 10 _ calls] by simp
  moreover have cc: "concat (chunks 10 calls) = calls"
    by (simp add: concat_chunks)
  moreover have "\<exists>evs. trace w' = trace w @ evs \<and> batched (chunks 10 calls) evs \<and>
      delays evs = length (chunks 10 calls) - 1"
    using evs(1,2) n by blast
  moreover have "success r + failed r = length l"
    using n evs(3,4) cc by (simp add: calls_def)
  ultimately show ?thesis
    unfolding Let_def run calls_def [symmetric] batchSize_def by simp
qed

theorem broadcast_batches_witness:
  "ids23 \<noteq> [] \<and> length ids23 = 23 \<and>
   length (chunks batchSize
      (map (\<lambda>i. broadcast_call sample_env False None ''hi'' (StrId i)) ids23)) = 3 \<and>
   success (fst (broadcastMessage (Ids ids23) ''hi'' sample_env False None flaky empty_world)) +
   failed (fst (broadcastMessage (Ids ids23) ''hi'' sample_env False None flaky empty_world)) = 23 \<and>
   delays (trace (snd (broadcastMessage (Ids ids23) ''hi'' sample_env False None flaky empty_world)))
     = 2"
proof -
  have l: "length ids23 = 23" by (simp add: ids23_def)
  then have a: "ids23 \<noteq> []" by auto
  obtain r w' where run: "broadcastMessage (Ids ids23) ''hi'' sample_env False None flaky empty_world = (r, w')"
    by (cases "broadcastMessage (Ids ids23) ''hi'' sample_env False None flaky empty_world")
  have t: "trace empty_world = []" by (simp add: empty_world_def)
  show ?thesis
    using broadcast_batches [OF a, of sample_env False None "''hi''" flaky empty_world] a l
    unfolding Let_def run t by auto
qed

text \<open>
  C10: every result of broadcastMessage has as many diagnostics as it counts failures. If
  the targets resolve to nothing (the sentinel with an empty directory, or an empty
  explicit list) the result is \<open>success = 0\<close>, \<open>failed = 1\<close> with the one synthetic diagnostic,
  and nothing is sent. Otherwise the diagnostics are exactly those of the requests that
  threw, one each, made of the identifier and the message of the error.
\<close>

theorem broadcast_errors:
  "(let targetUserIds = (case ids of
                           AllUsers \<Rightarrow> map (\<lambda>u. NumId (chatId u)) (getUsersFromKV e w)
                         | Ids l \<Rightarrow> map StrId l);
        (r, w') = broadcastMessage ids msg e isMedia messageId orc w
    in length (errors r) = failed r \<and>
       (targetUserIds = [] \<longrightarrow>
          w' = w \<and> success r = 0 \<and> failed r = 1 \<and>
          errors r = [if ids = AllUsers then NoRecipients else NoValidIds]) \<and>
       (targetUserIds \<noteq> [] \<longrightarrow>
          (\<exists>evs. trace w' = trace w @ evs \<and> errors r = failures evs \<and>
                 failed r = length (failures evs) \<and> success r = returned evs)))"
proof -
  define targetUserIds where "targetUserIds = (case ids of
      AllUsers \<Rightarrow> map (\<lambda>u. NumId (chatId u)) (getUsersFromKV e w) | Ids l \<Rightarrow> map StrId l)"
  obtain r w' where run: "broadcastMessage ids msg e isMedia messageId orc w = (r, w')"
    by (cases "broadcastMessage ids msg e isMedia messageId orc w")
  have "length (errors r) = failed r \<and>
       (targetUserIds = [] \<longrightarrow>
          w' = w \<and> success r = 0 \<and> failed r = 1 \<and>
          errors r = [if ids = AllUsers then NoRecipients else NoValidIds]) \<and>
       (targetUserIds \<noteq> [] \<longrightarrow>
          (\<exists>evs. trace w' = trace w @ evs \<and> errors r = failures evs \<and>
                 failed r = length (failures evs) \<and> success r = returned evs))"
  proof (cases "targetUserIds = []")
    case True
    then have "r = (if ids = AllUsers then \<lparr>success = 0, failed = 1, errors = [NoRecipients]\<rparr>
                    else \<lparr>success = 0, failed = 1, errors = [NoValidIds]\<rparr>)" "w' = w"
      using run unfolding broadcastMessage_def Let_def targetUserIds_def [symmetric]
      by (auto split: if_splits)
    then show ?thesis
      using True by auto
  next
    case False
    from broadcastMessage_loop [OF targetUserIds_def False run]
    show ?thesis
      using False by auto
  qed
  then show ?thesis
    unfolding Let_def run targetUserIds_def [symmetric] by simp
qed


theorem broadcast_errors_witness:
  "broadcastMessage AllUsers ''hi'' sample_env False None quiet empty_world =
     (\<lparr>success = 0, failed = 1, errors = [NoRecipients]\<rparr>, empty_world) \<and>
   length (errors (fst (broadcastMessage (Ids [''1'', ''2'', ''3'']) ''hi'' sample_env False None
      flaky empty_world))) =
     failed (fst (broadcastMessage (Ids [''1'', ''2'', ''3'']) ''hi'' sample_env False None
      flaky empty_world)) \<and>
   errors (fst (broadcastMessage (Ids [''1'', ''2'', ''3'']) ''hi'' sample_env False None
      flaky empty_world)) =
     failures (trace (snd (broadcastMessage (Ids [''1'', ''2'', ''3'']) ''hi'' sample_env False None
      flaky empty_world)))"
proof -
  obtain r w' where run: "broadcastMessage AllUsers ''hi'' sample_env False None quiet empty_world = (r, w')"
    by (cases "broadcastMessage AllUsers ''hi'' sample_env False None quiet empty_world")
  have none: "getUsersFromKV sample_env empty_world = []"
    by (simp add: getUsersFromKV_def empty_world_def)
  have "w' = empty_world \<and> success r = 0 \<and> failed r = 1 \<and> errors r = [NoRecipients]"
    using broadcast_errors [where ids = AllUsers and e = sample_env and w = empty_world
        and msg = "''hi''" and isMedia = False and messageId = None and orc = quiet]
    unfolding Let_def run by (simp add: none)
  then have one: "broadcastMessage AllUsers ''hi'' sample_env False None quiet empty_world =
     (\<lparr>success = 0, failed = 1, errors = [NoRecipients]\<rparr>, empty_world)"
    unfolding run by simp
  obtain r2 w2 where run2: "broadcastMessage (Ids [''1'', ''2'', ''3'']) ''hi'' sample_env False None
      flaky empty_world = (r2, w2)"
    by (cases "broadcastMessage (Ids [''1'', ''2'', ''3'']) ''hi'' sample_env False None flaky empty_world")
  have two: "length (errors r2) = failed r2 \<and> errors r2 = failures (trace w2)"
    using broadcast_errors [where ids = "Ids [''1'', ''2'', ''3'']" and e = sample_env
        and w = empty_world and msg = "''hi''" and isMedia = False and messageId = None
        and orc = flaky]
    unfolding Let_def run2 by (auto simp: empty_world_def)
  show ?thesis
    unfolding run2 fst_conv snd_conv using one two by blast
qed

section \<open>Properties of the dispatcher\<close>

lemma kv_callTelegramAPI: "kv (snd (callTelegramAPI orc c w)) = kv w"
  by (simp add: callTelegramAPI_def Let_def split: outcome.splits)

lemma trace_callTelegramAPI:
  "trace (snd (callTelegramAPI orc c w)) =
     trace w @ [Issued c, Settled c (transport orc (length (trace w)) c)]"
  by (simp add: callTelegramAPI_def Let_def split: outcome.splits)

lemma fst_callTelegramAPI:
  "fst (callTelegramAPI orc c w) =
     (case transport orc (length (trace w)) c of
        Throws err \<Rightarrow> Inl err | Returns ok d \<Rightarrow> Inr (ok, d))"
  by (simp add: callTelegramAPI_def Let_def split: outcome.splits)

lemma snd_finished: "snd (finished r) = snd r"
  by (cases r) (auto simp: finished_def split: sum.splits)

lemma fst_finished: "fst (finished r) = (case fst r of Inl err \<Rightarrow> Inl err | Inr a \<Rightarrow> Inr ())"
  by (cases r) (auto simp: finished_def split: sum.splits)

lemma handleUserMessage_start:
  fixes e :: env and orc :: surroundings and w :: world
  assumes "m_text msg = Some ''/start''"
  defines "w1 \<equiv> (if ENABLE_USER_TRACKING e = Some ''true''
                    then addUserToKV (m_chat_id msg) (createUserInfo msg orc) e orc w else w)"
  shows "kv (handleUserMessage msg e orc w) = kv w1"
    and "trace (handleUserMessage msg e orc w) = trace w1 @ start_reply msg orc (length (trace w1))"
proof -
  let ?greeting = "SendMessage (NumId (m_chat_id msg)) Welcome None"
  have ui: "ui_chatId (createUserInfo msg orc) = m_chat_id msg"
    by (simp add: createUserInfo_def)
  have h: "handleUserMessage msg e orc w =
      (case finished (callTelegramAPI orc ?greeting w1) of
         (Inr u, w2) \<Rightarrow> w2
       | (Inl err, w2) \<Rightarrow>
           snd (callTelegramAPI orc (SendMessage (NumId (m_chat_id msg)) DeliveryFailed None) w2))"
    using assms(1) unfolding handleUserMessage_def Let_def ui w1_def sendMessage_def
    by simp
  show "kv (handleUserMessage msg e orc w) = kv w1"
    unfolding h
    by (cases "transport orc (length (trace w1)) ?greeting")
      (simp_all add: finished_def callTelegramAPI_def Let_def split: outcome.splits)
  show "trace (handleUserMessage msg e orc w) = trace w1 @ start_reply msg orc (length (trace w1))"
    unfolding h
    by (cases "transport orc (length (trace w1)) ?greeting")
      (simp_all add: finished_def callTelegramAPI_def start_reply_def Let_def
        split: outcome.splits)
qed

text \<open>
  C5, as amended: for every end-user message whose text is exactly \<^verbatim>\<open>/start\<close>, the bot sends
  the fixed welcome reply to the sender and stops: nothing is sent to the administrator
  (if sending the welcome throws, the failure notice goes to the sender too). The upsert
  of the Recipient Record comes before the test for \<^verbatim>\<open>/start\<close>: with tracking enabled the
  store is what the upsert leaves, and it is unchanged when tracking is disabled.
\<close>

theorem start_message_effects:
  assumes "m_text msg = Some ''/start''"
  shows "(let w1 = (if ENABLE_USER_TRACKING e = Some ''true''
                    then addUserToKV (m_chat_id msg) (createUserInfo msg orc) e orc w else w);
              w2 = handleUserMessage msg e orc w
          in kv w2 = kv w1 \<and> trace w2 = trace w1 @ start_reply msg orc (length (trace w1))) \<and>
         (ENABLE_USER_TRACKING e \<noteq> Some ''true'' \<longrightarrow> kv (handleUserMessage msg e orc w) = kv w)"
  using handleUserMessage_start [OF assms, of e orc w]
  by (simp add: Let_def)

theorem start_message_effects_witness:
  "m_text start_message = Some ''/start'' \<and>
   kv (handleUserMessage start_message (sample_env\<lparr>ENABLE_USER_TRACKING := None\<rparr>) quiet empty_world)
     = kv empty_world \<and>
   trace (handleUserMessage start_message sample_env quiet empty_world) =
     [Put [\<lparr>chatId = 42, userName = ''al'', userId = 42, lastActive = 1700000005000\<rparr>],
      Issued (SendMessage (NumId 42) Welcome None),
      Settled (SendMessage (NumId 42) Welcome None) (Returns True None)]"
proof -
  have a: "m_text start_message = Some ''/start''" by (simp add: start_message_def)
  have b: "ENABLE_USER_TRACKING (sample_env\<lparr>ENABLE_USER_TRACKING := None\<rparr>) \<noteq> Some ''true''"
    by simp
  have c: "ENABLE_USER_TRACKING sample_env = Some ''true''" by (simp add: sample_env_def)
  have one: "kv (handleUserMessage start_message (sample_env\<lparr>ENABLE_USER_TRACKING := None\<rparr>) quiet empty_world)
     = kv empty_world"
    using start_message_effects [OF a, of "sample_env\<lparr>ENABLE_USER_TRACKING := None\<rparr>" quiet empty_world] b
    by blast
  have two: "trace (handleUserMessage start_message sample_env quiet empty_world) =
      trace (addUserToKV (m_chat_id start_message) (createUserInfo start_message quiet) sample_env quiet empty_world)
      @ start_reply start_message quiet
          (length (trace (addUserToKV (m_chat_id start_message) (createUserInfo start_message quiet) sample_env quiet empty_world)))"
    using start_message_effects [OF a, of sample_env quiet empty_world] c
    by (simp add: Let_def)
  show ?thesis
    using a one unfolding two
    by (simp add: addUserToKV_def getUsersFromKV_def sample_env_def quiet_def empty_world_def
        start_message_def createUserInfo_def start_reply_def truthy_def Let_def)
qed

text \<open>
  C5 as stated fails with tracking enabled and a store bound: a \<^verbatim>\<open>/start\<close> message from a new
  conversation adds its record to the empty directory.
\<close>

theorem start_message_counterexample:
  "m_text start_message = Some ''/start'' \<and>
   kv empty_world = Absent \<and>
   kv (handleUserMessage start_message sample_env quiet empty_world) =
     UserList [\<lparr>chatId = 42, userName = ''al'', userId = 42, lastActive = 1700000005000\<rparr>]"
  by (simp add: handleUserMessage_def addUserToKV_def getUsersFromKV_def sample_env_def quiet_def
      empty_world_def start_message_def createUserInfo_def truthy_def Let_def sendMessage_def
      callTelegramAPI_def finished_def)

subsection \<open>Commands of the administrator\<close>

lemma issued_calls_append: "issued_calls (xs @ ys) = issued_calls xs @ issued_calls ys"
  by (induction xs rule: issued_calls.induct) simp_all

lemma issued_calls_Issued: "issued_calls (map Issued cs) = cs"
  by (induction cs) simp_all

lemma issued_calls_settled: "list_all is_Settled evs \<Longrightarrow> issued_calls evs = []"
  by (induction evs rule: issued_calls.induct) simp_all

lemma sends_onlyI:
  "trace w' = trace w @ evs \<Longrightarrow> list_all is_send (issued_calls evs) \<Longrightarrow> sends_only w w'"
  by (simp add: sends_only_def)

lemma sends_onlyE:
  assumes "sends_only w w'"
  obtains evs where "trace w' = trace w @ evs" "list_all is_send (issued_calls evs)"
proof -
  from assms have "trace w' = trace w @ drop (length (trace w)) (trace w')"
    unfolding sends_only_def by (metis append_take_drop_id)
  with assms that show thesis
    unfolding sends_only_def by blast
qed

lemma sends_only_refl: "sends_only w w"
  by (rule sends_onlyI [of _ _ "[]"]) simp_all

lemma sends_only_trans:
  assumes "sends_only w1 w2" "sends_only w2 w3"
  shows "sends_only w1 w3"
proof -
  from assms(1) obtain a where a: "trace w2 = trace w1 @ a" "list_all is_send (issued_calls a)"
    by (rule sends_onlyE)
  from assms(2) obtain b where b: "trace w3 = trace w2 @ b" "list_all is_send (issued_calls b)"
    by (rule sends_onlyE)
  show ?thesis
    by (rule sends_onlyI [of _ _ "a @ b"]) (simp_all add: a b issued_calls_append)
qed

lemma sends_only_sendMessage: "sends_only w (snd (sendMessage orc chat txt reply_to w))"
  by (rule sends_onlyI [of _ _ "[Issued (SendMessage chat txt reply_to),
      Settled (SendMessage chat txt reply_to)
        (transport orc (length (trace w)) (SendMessage chat txt reply_to))]"])
    (simp_all add: sendMessage_def trace_callTelegramAPI)

lemma sends_only_reply:
  "sends_only w (snd (finished (sendMessage orc chat txt reply_to w)))"
  by (simp add: snd_finished sends_only_sendMessage)

lemma batched_issued: "batched bs evs \<Longrightarrow> issued_calls evs = concat bs"
proof (induction bs arbitrary: evs)
  case Nil
  then show ?case by simp
next
  case (Cons b bs)
  define s where "s = take (length b) (drop (length b) evs)"
  define rest where "rest = drop (2 * length b) evs"
  from Cons.prems have i: "take (length b) evs = map Issued b"
    and s: "list_all is_Settled s"
    and r: "if bs = [] then rest = []
            else (case rest of Delay d # rest' \<Rightarrow> d = 100 \<and> batched bs rest' | _ \<Rightarrow> False)"
    by (simp_all add: Let_def s_def rest_def)
  have evs: "evs = map Issued b @ s @ rest"
    using split_events [of evs "length b"] i by (simp add: s_def rest_def)
  have "issued_calls evs = b @ issued_calls rest"
    by (subst evs) (simp add: issued_calls_append issued_calls_Issued issued_calls_settled [OF s])
  moreover have "issued_calls rest = concat bs"
  proof (cases "bs = []")
    case True
    with r show ?thesis by simp
  next
    case False
    with r obtain rest' where "rest = Delay 100 # rest'" "batched bs rest'"
      by (auto split: list.splits event.splits)
    then show ?thesis
      using Cons.IH [of rest'] by simp
  qed
  ultimately show ?case by simp
qed

lemma sends_only_broadcastMessage:
  assumes "broadcastMessage ids msg e False messageId orc w = (r, w')"
  shows "sends_only w w'"
proof -
  define targetUserIds where "targetUserIds = (case ids of
      AllUsers \<Rightarrow> map (\<lambda>u. NumId (chatId u)) (getUsersFromKV e w) | Ids l \<Rightarrow> map StrId l)"
  show ?thesis
  proof (cases "targetUserIds = []")
    case True
    then have "w' = w"
      using assms unfolding broadcastMessage_def Let_def targetUserIds_def [symmetric]
      by (auto split: if_splits)
    then show ?thesis
      by (simp add: sends_only_refl)
  next
    case False
    from broadcastMessage_loop [OF targetUserIds_def False assms]
    obtain evs where evs: "trace w' = trace w @ evs"
      "batched (chunks 10 (map (broadcast_call e False messageId msg) targetUserIds)) evs"
      by blast
    have "issued_calls evs = map (broadcast_call e False messageId msg) targetUserIds"
      using batched_issued [OF evs(2)] by (simp add: concat_chunks)
    then have "list_all is_send (issued_calls evs)"
      by (simp add: list_all_iff broadcast_call_def)
    with evs(1) show ?thesis
      by (rule sends_onlyI)
  qed
qed

lemma sends_only_post_command: "sends_only w (snd (post_command msg e orc w))"
proof -
  let ?admin = "StrId (ADMIN_CHAT_ID e)"
  have report: "sends_only w (snd (and_then (sendMessage orc ?admin body reply_to w)
      (\<lambda>sent w1.
         case broadcastMessage ids postMessage e False None orc w1 of
           (results, w2) \<Rightarrow>
             finished (sendMessage orc ?admin
               (BroadcastReport (success results) (failed results)
                  (take 5 (errors results)) (length (errors results) - 5)) None w2))))"
    for body reply_to ids postMessage
  proof (cases "sendMessage orc ?admin body reply_to w")
    case (Pair res w1)
    then have first: "sends_only w w1"
      using sends_only_sendMessage [of w orc ?admin body reply_to] by simp
    show ?thesis
    proof (cases res)
      case (Inl err)
      then show ?thesis
        using Pair first by (simp add: and_then_def)
    next
      case (Inr sent)
      obtain results w2 where b: "broadcastMessage ids postMessage e False None orc w1 = (results, w2)"
        by (cases "broadcastMessage ids postMessage e False None orc w1")
      have "sends_only w1 w2"
        using b by (rule sends_only_broadcastMessage)
      with first have "sends_only w w2"
        by (rule sends_only_trans)
      then have "sends_only w (snd (finished (sendMessage orc ?admin
               (BroadcastReport (success results) (failed results)
                  (take 5 (errors results)) (length (errors results) - 5)) None w2)))"
        using sends_only_reply sends_only_trans by blast
      then show ?thesis
        using Pair Inr b by (simp add: and_then_def)
    qed
  qed
  obtain ids postMessage where p: "parsePostTargets (trim (drop 5 (the (m_text msg)))) = (ids, postMessage)"
    by (cases "parsePostTargets (trim (drop 5 (the (m_text msg))))")
  show ?thesis
    unfolding post_command_def Let_def p
    by (simp add: sends_only_reply report)
qed

lemma startsWith_post_not_command:
  assumes "startsWith t ''/post''"
  shows "t \<noteq> ''/start''" "t \<noteq> ''/status''" "t \<noteq> ''/help''"
  using assms by (auto simp: startsWith_def)

text \<open>
  C1 fails on the code. Every administrator message whose text starts with \<^verbatim>\<open>/post\<close> is
  handled by the text broadcast, whether or not it replies to a message: that branch is
  tested first and returns on every path, so the media broadcast of the reply branch is
  never reached, and whatever the handler then sends it sends with \<^verbatim>\<open>sendMessage\<close>: no
  message is copied. In the witness the administrator replies to a message without text
  and caption with \<^verbatim>\<open>/post 123 hello\<close>: the bot sends the text to 123.
\<close>

theorem post_takes_text_branch:
  assumes "is_post msg"
  shows "admin_dispatch msg e orc w = post_command msg e orc w \<and>
         sends_only w (handleAdminMessage msg e orc w)"
proof
  obtain t where t: "m_text msg = Some t" "startsWith t ''/post''"
    using assms by (auto simp: is_post_def truthy_def split: option.splits)
  show d: "admin_dispatch msg e orc w = post_command msg e orc w"
    using assms t startsWith_post_not_command [OF t(2)]
    by (simp add: admin_dispatch_def Let_def)
  obtain res w1 where r: "post_command msg e orc w = (res, w1)"
    by (cases "post_command msg e orc w")
  have first: "sends_only w w1"
    using sends_only_post_command [of w msg e orc] r by simp
  show "sends_only w (handleAdminMessage msg e orc w)"
  proof (cases res)
    case (Inr u)
    then show ?thesis
      using first by (simp add: handleAdminMessage_def d r)
  next
    case (Inl err)
    have "sends_only w1
        (snd (sendMessage orc (StrId (ADMIN_CHAT_ID e)) (HandlerError err) None w1))"
      by (rule sends_only_sendMessage)
    with first show ?thesis
      unfolding handleAdminMessage_def d r Inl by (simp add: sends_only_trans)
  qed
qed

lemma trim_post_reply: "trim (drop 5 ''/post 123 hello'') = ''123 hello''"
  by code_simp

lemma post_command_post_reply:
  "post_command post_reply sample_env quiet empty_world =
     (Inr (),
      \<lparr>kv = Absent,
       trace =
         [Issued (SendMessage (StrId ''999'') (BroadcastStarting 1) (Some 5)),
          Settled (SendMessage (StrId ''999'') (BroadcastStarting 1) (Some 5)) (Returns True None),
          Issued (SendMessage (StrId ''123'') (Broadcast ''hello'') None),
          Settled (SendMessage (StrId ''123'') (Broadcast ''hello'') None) (Returns True None),
          Issued (SendMessage (StrId ''999'') (BroadcastReport 1 0 [] 0) None),
          Settled (SendMessage (StrId ''999'') (BroadcastReport 1 0 [] 0) None)
            (Returns True None)]\<rparr>)"
  by code_simp

theorem post_takes_text_branch_witness:
  "is_post post_reply \<and>
   m_reply_to_message post_reply = Some \<lparr>r_message_id = 7, r_text = None, r_caption = None\<rparr> \<and>
   \<not> hasUserTag \<lparr>r_message_id = 7, r_text = None, r_caption = None\<rparr> \<and>
   trace (handleAdminMessage post_reply sample_env quiet empty_world) =
     [Issued (SendMessage (StrId ''999'') (BroadcastStarting 1) (Some 5)),
      Settled (SendMessage (StrId ''999'') (BroadcastStarting 1) (Some 5)) (Returns True None),
      Issued (SendMessage (StrId ''123'') (Broadcast ''hello'') None),
      Settled (SendMessage (StrId ''123'') (Broadcast ''hello'') None) (Returns True None),
      Issued (SendMessage (StrId ''999'') (BroadcastReport 1 0 [] 0) None),
      Settled (SendMessage (StrId ''999'') (BroadcastReport 1 0 [] 0) None) (Returns True None)]"
proof -
  have p: "is_post post_reply"
    by (simp add: is_post_def post_reply_def truthy_def startsWith_def)
  have r: "m_reply_to_message post_reply = Some \<lparr>r_message_id = 7, r_text = None, r_caption = None\<rparr>"
    by (simp add: post_reply_def)
  have t: "\<not> hasUserTag \<lparr>r_message_id = 7, r_text = None, r_caption = None\<rparr>"
    by (simp add: hasUserTag_def)
  have "admin_dispatch post_reply sample_env quiet empty_world =
      post_command post_reply sample_env quiet empty_world"
    using post_takes_text_branch [OF p] by blast
  then show ?thesis
    using p r t by (simp add: handleAdminMessage_def post_command_post_reply)
qed

end
